theory Spec2Isabelle
  imports Complex_Main
begin

text \<open>
  A model of the analysis engine for fixed-priority periodic task systems: the parser of
  task systems, the utilization tests, the response-time iteration, the first free slot,
  the rate-monotonic simulation and the slack computation.  The sources hold the engine
  twice; the model follows the file that has \<open>getTaskResponse\<close> and the slack
  computation.  The other file is an older variant of the same classes: its parser,
  constructor, utilization tests and simulation loop are the same, its response-time loop
  has no iteration cap and starts from the previous response time alone, and its
  \<open>getFirstFreeSlot\<close> returns \<open>null\<close> at once.
\<close>

section \<open>Numbers\<close>

text \<open>
  The program computes with JavaScript numbers.  Every execution time, period and deadline
  is read from a run of decimal digits, so these are modelled as (unbounded) integers;
  utilizations and the unrounded proportion are exact rationals, and the Liu and Layland
  bound, which needs an n-th root, is a real number.  Precision loss of doubles beyond
  2^53 is outside the model.
\<close>

text \<open>
  \<open>math.round(x, n)\<close> of the mathjs library: the nearest number with \<open>n\<close> decimals,
  a tie going upward (all rounded values of the program are non-negative).
\<close>

definition math_round :: "'a::floor_ceiling \<Rightarrow> nat \<Rightarrow> 'a" where
  "math_round x n = of_int \<lfloor>x * 10 ^ n + 1 / 2\<rfloor> / 10 ^ n"

text \<open>\<open>math.ceil(a / b)\<close> on two integers: the division is exact, then rounded up.\<close>

definition ceil_quot :: "int \<Rightarrow> int \<Rightarrow> int" where
  "ceil_quot a b = \<lceil>rat_of_int a / rat_of_int b\<rceil>"

section \<open>Tasks\<close>

record RTTask =
  tid :: nat
  executionTime :: int
  period :: int
  expire :: int
  fu :: rat

text \<open>\<open>parseFloat\<close> on a run of decimal digits (the only strings the parser passes).\<close>

definition digit_val :: "char \<Rightarrow> nat" where
  "digit_val c = of_char c - 48"

definition parseFloat :: "string \<Rightarrow> int" where
  "parseFloat ds = int (foldl (\<lambda>acc c. 10 * acc + digit_val c) 0 ds)"

text \<open>
  The constructor of \<open>RTTask\<close>.  \<open>Constants.defaultDecimals\<close> is declared in a file
  that is not part of the sources, so it is the parameter \<open>dd\<close>.  Rounding an integer
  to \<open>dd\<close> decimals leaves it unchanged (lemma \<open>math_round_of_int\<close> below), which is why the
  three integer fields stay integers.
\<close>

definition new_RTTask :: "nat \<Rightarrow> nat \<Rightarrow> string \<Rightarrow> string \<Rightarrow> string \<Rightarrow> RTTask" where
  "new_RTTask dd i c t d =
     (let ex = \<lfloor>math_round (rat_of_int (parseFloat c)) dd\<rfloor>;
          pe = \<lfloor>math_round (rat_of_int (parseFloat t)) dd\<rfloor>;
          dl = \<lfloor>math_round (rat_of_int (parseFloat d)) dd\<rfloor>
      in \<lparr> tid = i, executionTime = ex, period = pe, expire = dl,
           fu = math_round (if pe > 0 then rat_of_int ex / rat_of_int pe else 0) dd \<rparr>)"

section \<open>The task-system parser\<close>

datatype error = TypeError | InvalidSystem | ParsingFailed | EmptyMin

definition is_digit :: "char \<Rightarrow> bool" where
  "is_digit c = (48 \<le> (of_char c :: nat) \<and> (of_char c :: nat) \<le> 57)"

text \<open>
  The regular expression \<open>/\((\d+),(\d+),(\d+)\)/\<close>, tried at the head of a string.
  Each \<open>\d+\<close> is greedy and is followed by a character that is no digit, so the longest
  run of digits is the only candidate.
\<close>

definition digits_then :: "char \<Rightarrow> string \<Rightarrow> (string \<times> string) option" where
  "digits_then stop s =
     (let ds = takeWhile is_digit s; r = dropWhile is_digit s
      in if ds = [] then None
         else (case r of [] \<Rightarrow> None
               | c # r' \<Rightarrow> if c = stop then Some (ds, r') else None))"

definition match_here :: "string \<Rightarrow> (string \<times> string \<times> string) option" where
  "match_here s =
     (case s of [] \<Rightarrow> None
      | c # r0 \<Rightarrow>
          if c \<noteq> CHR ''('' then None
          else (case digits_then CHR '','' r0 of None \<Rightarrow> None
                | Some (a, r1) \<Rightarrow>
                    (case digits_then CHR '','' r1 of None \<Rightarrow> None
                     | Some (b, r2) \<Rightarrow>
                         (case digits_then CHR '')'' r2 of None \<Rightarrow> None
                          | Some (c3, r3) \<Rightarrow> Some (a, b, c3)))))"

text \<open>\<open>RegExp.exec\<close>: the pattern is not anchored, so the leftmost match anywhere wins.\<close>

fun regex_exec :: "string \<Rightarrow> (string \<times> string \<times> string) option" where
  "regex_exec [] = None"
| "regex_exec (c # cs) =
     (case match_here (c # cs) of Some m \<Rightarrow> Some m | None \<Rightarrow> regex_exec cs)"

text \<open>
  \<open>AppTools.parseTask\<close>.  When nothing matches, \<open>exec\<close> returns \<open>null\<close> and reading
  \<open>parsedTask.length\<close> throws a \<open>TypeError\<close>; a match always has four entries, so the
  guarded \<open>throw\<close> of the source is never reached.
\<close>

definition parseTask :: "nat \<Rightarrow> nat \<Rightarrow> string \<Rightarrow> error + RTTask" where
  "parseTask dd i task =
     (case regex_exec task of
        None \<Rightarrow> Inl TypeError
      | Some (c, t, d) \<Rightarrow>
          if length [task, c, t, d] \<noteq> 4 then Inl InvalidSystem
          else Inr (new_RTTask dd i c t d))"

text \<open>
  The scanning loop of \<open>AppTools.parseSystemTasks\<close>: the arguments after the remaining
  input are \<open>charStack\<close>, \<open>currentTask\<close>, \<open>tasks\<close> and \<open>taskId\<close>.  \<open>pop\<close> on an
  empty array does nothing, as \<open>butlast\<close> on \<open>[]\<close>.
\<close>

fun scan :: "nat \<Rightarrow> string \<Rightarrow> string \<Rightarrow> string \<Rightarrow> RTTask list \<Rightarrow> nat \<Rightarrow> error + RTTask list" where
  "scan dd [] charStack currentTask tasks taskId =
     (if length charStack > 0 then Inl ParsingFailed
      else if length currentTask > 0 then
        (case parseTask dd taskId currentTask of
           Inl e \<Rightarrow> Inl e
         | Inr t \<Rightarrow> Inr (tasks @ [t]))
      else Inr tasks)"
| "scan dd (ch # rest) charStack currentTask tasks taskId =
     (if ch = CHR '' '' then scan dd rest charStack currentTask tasks taskId
      else if ch = CHR ''('' then
        scan dd rest (charStack @ [ch]) (currentTask @ [ch]) tasks taskId
      else if ch = CHR '')'' then
        scan dd rest (butlast charStack) (currentTask @ [ch]) tasks taskId
      else if ch = CHR '','' then
        (if length charStack > 0 then
           scan dd rest charStack (currentTask @ [ch]) tasks taskId
         else
           (case parseTask dd taskId currentTask of
              Inl e \<Rightarrow> Inl e
            | Inr t \<Rightarrow> scan dd rest charStack [] (tasks @ [t]) (taskId + 1)))
      else scan dd rest charStack (currentTask @ [ch]) tasks taskId)"

definition parseSystemTasks :: "nat \<Rightarrow> string \<Rightarrow> error + RTTask list" where
  "parseSystemTasks dd system = scan dd system [] [] [] 1"

section \<open>Utilization and the Liu and Layland bound\<close>

text \<open>
  The memoizing fields of \<open>RTSystem\<close> hold values that depend on the task list only
  and the task list never changes, so each accessor is modelled as a function of
  the task list.
\<close>

definition getFU :: "nat \<Rightarrow> RTTask list \<Rightarrow> rat" where
  "getFU dd tasks = math_round (sum_list (map fu tasks)) dd"

definition getN :: "RTTask list \<Rightarrow> nat" where
  "getN tasks = length tasks"

definition getLiu :: "RTTask list \<Rightarrow> real" where
  "getLiu tasks =
     (let n = real (getN tasks) in math_round (n * (2 powr (1 / n) - 1)) 2)"

text \<open>
  With no task the bound of the source is \<open>0 * Infinity = NaN\<close> and every comparison
  with it is false.
\<close>

definition isValidForLiu :: "nat \<Rightarrow> RTTask list \<Rightarrow> bool" where
  "isValidForLiu dd tasks =
     (if getN tasks = 0 then False else real_of_rat (getFU dd tasks) \<le> getLiu tasks)"

section \<open>Response times\<close>

text \<open>
  One pass of the inner \<open>for\<close> loop of \<open>getTaskResponse\<close>: the execution time of the
  task plus the demand of the tasks before index \<open>taskIndex\<close>.
\<close>

definition responseStep :: "RTTask list \<Rightarrow> RTTask \<Rightarrow> nat \<Rightarrow> int \<Rightarrow> int" where
  "responseStep tasks task taskIndex seed =
     executionTime task +
     (\<Sum>loopTask \<leftarrow> take taskIndex tasks.
        ceil_quot seed (period loopTask) * executionTime loopTask)"

text \<open>
  The \<open>do ... while (!finish && iterationCount < 50)\<close> loop; it returns the last
  \<open>iteration\<close> and the final \<open>iterationCount\<close>.
\<close>

function responseLoop :: "RTTask list \<Rightarrow> RTTask \<Rightarrow> nat \<Rightarrow> int \<Rightarrow> nat \<Rightarrow> int \<times> nat" where
  "responseLoop tasks task taskIndex seed iterationCount =
     (let iterationCount' = iterationCount + 1;
          iteration = responseStep tasks task taskIndex seed;
          finish = (seed = iteration)
      in if \<not> finish \<and> iterationCount' < 50
         then responseLoop tasks task taskIndex iteration iterationCount'
         else (iteration, iterationCount'))"
  by pat_completeness auto
termination
  by (relation "measure (\<lambda>(tasks, task, taskIndex, seed, iterationCount). 50 - iterationCount)") auto

declare responseLoop.simps [simp del]

definition responseFromSeed :: "RTTask list \<Rightarrow> RTTask \<Rightarrow> nat \<Rightarrow> int \<Rightarrow> int" where
  "responseFromSeed tasks task taskIndex seed =
     (case responseLoop tasks task taskIndex seed 0 of
        (iteration, iterationCount) \<Rightarrow> if iterationCount < 50 then iteration else - 1)"

definition getTaskResponse :: "RTTask list \<Rightarrow> RTTask \<Rightarrow> int \<Rightarrow> nat \<Rightarrow> int" where
  "getTaskResponse tasks task previousTaskTime iterationIndex =
     (let seed = previousTaskTime + executionTime task;
          taskIndex = iterationIndex mod length tasks
      in responseFromSeed tasks task taskIndex seed)"

text \<open>The \<open>for\<close> loop of \<open>getTaskTiming\<close>, from index \<open>t\<close> on.\<close>

function timingLoop :: "RTTask list \<Rightarrow> nat \<Rightarrow> int \<Rightarrow> int list \<Rightarrow> int list" where
  "timingLoop tasks t previousResult result =
     (if t < length tasks then
        (let previousResult' = getTaskResponse tasks (tasks ! t) previousResult t
         in timingLoop tasks (t + 1) previousResult' (result @ [previousResult']))
      else result)"
  by pat_completeness auto
termination
  by (relation "measure (\<lambda>(tasks, t, previousResult, result). length tasks - t)") auto

declare timingLoop.simps [simp del]

definition getTaskTiming :: "RTTask list \<Rightarrow> int list" where
  "getTaskTiming tasks =
     (if length tasks = 0 then []
      else (let result = [executionTime (tasks ! 0)]
            in timingLoop tasks 1 (result ! 0) result))"

section \<open>The first free slot\<close>

definition firstFreeSlotStep :: "RTTask list \<Rightarrow> int \<Rightarrow> int" where
  "firstFreeSlotStep tasks previousResult =
     1 + (\<Sum>loopTask \<leftarrow> tasks.
            ceil_quot previousResult (period loopTask) * executionTime loopTask)"

text \<open>
  The \<open>do ... while (previousResult != currentResult)\<close> loop has no iteration cap and
  need not end: \<open>None\<close> is a run that never returns.
\<close>

partial_function (option) firstFreeSlotLoop :: "RTTask list \<Rightarrow> int \<Rightarrow> int option" where
  "firstFreeSlotLoop tasks currentResult =
     (let previousResult = currentResult;
          currentResult' = firstFreeSlotStep tasks previousResult
      in if previousResult \<noteq> currentResult'
         then firstFreeSlotLoop tasks currentResult'
         else Some previousResult)"

declare firstFreeSlotLoop.simps [code]

definition firstFreeSlotSeed :: "RTTask list \<Rightarrow> int" where
  "firstFreeSlotSeed tasks = 1 + last (getTaskTiming tasks)"

text \<open>
  \<open>getFirstFreeSlot\<close> of the current source file (the field \<open>_firstFreeSlot\<close> is
  \<open>null\<close> from the constructor on and is never assigned, so every call computes).  With no
  task, \<open>_.last\<close> gives \<open>undefined\<close>, the seed is \<open>NaN\<close>, the first pass compares
  \<open>NaN\<close> with 1 and the second pass returns 1.
\<close>

definition getFirstFreeSlot :: "RTTask list \<Rightarrow> int option" where
  "getFirstFreeSlot tasks =
     (if getTaskTiming tasks = [] then Some 1
      else firstFreeSlotLoop tasks (firstFreeSlotSeed tasks))"

section \<open>The rate-monotonic simulation\<close>

text \<open>
  \<open>math.lcm\<close> over all periods (the library function takes two or more arguments).
\<close>

definition getHyperperiod :: "RTTask list \<Rightarrow> int" where
  "getHyperperiod tasks = foldr lcm (map period tasks) 1"

text \<open>
  The local variables of \<open>getRMScheduling\<close>.  The three objects keyed by task id are
  functions on ids; every id that is read is the id of a task and is written by the
  initialisation first.
\<close>

record RMState =
  unattendendTasks :: "nat list"
  executionCount :: "nat \<Rightarrow> int"
  nextStart :: "nat \<Rightarrow> int"
  scheduling :: "nat \<Rightarrow> bool list"
  executionOrder :: "nat list"
  selectedTask :: "RTTask option"
  currentCell :: int

definition initCounters :: "RTTask \<Rightarrow> RMState \<Rightarrow> RMState" where
  "initCounters item s =
     s\<lparr> executionCount := (executionCount s)(tid item := 0),
        nextStart := (nextStart s)(tid item := period item),
        scheduling := (scheduling s)(tid item := []) \<rparr>"

definition rmInit :: "RTTask list \<Rightarrow> RMState" where
  "rmInit tasks =
     fold initCounters tasks
       \<lparr> unattendendTasks = map tid tasks,
         executionCount = (\<lambda>_. 0),
         nextStart = (\<lambda>_. 0),
         scheduling = (\<lambda>_. []),
         executionOrder = [],
         selectedTask = None,
         currentCell = 0 \<rparr>"

text \<open>The release check at the head of the body of the inner \<open>for\<close> loop.\<close>

definition rmRelease :: "RTTask \<Rightarrow> RMState \<Rightarrow> RMState" where
  "rmRelease currentTask s =
     (let taskId = tid currentTask
      in if currentCell s = nextStart s taskId then
           s\<lparr> nextStart := (nextStart s)(taskId := nextStart s taskId + period currentTask),
              executionCount := (executionCount s)(taskId := 0),
              unattendendTasks := unattendendTasks s @ [taskId] \<rparr>
         else s)"

text \<open>The rest of the body: the task runs in this cell, or it does not.\<close>

definition rmSelect :: "RTTask \<Rightarrow> RMState \<Rightarrow> RMState" where
  "rmSelect currentTask s =
     (let taskId = tid currentTask
      in if selectedTask s = None \<and> taskId \<in> set (unattendendTasks s) then
           (let s' = s\<lparr> selectedTask := Some currentTask,
                         scheduling := (scheduling s)(taskId := scheduling s taskId @ [True]),
                         executionCount := (executionCount s)(taskId := executionCount s taskId + 1),
                         executionOrder := executionOrder s @ [taskId] \<rparr>
            in if executionCount s' taskId \<ge> executionTime currentTask
               then s'\<lparr> unattendendTasks := filter (\<lambda>x. x \<noteq> taskId) (unattendendTasks s') \<rparr>
               else s')
         else s\<lparr> scheduling := (scheduling s)(taskId := scheduling s taskId @ [False]) \<rparr>)"

definition rmTask :: "RTTask \<Rightarrow> RMState \<Rightarrow> RMState" where
  "rmTask currentTask s = rmSelect currentTask (rmRelease currentTask s)"

text \<open>One pass of the body of the \<open>while\<close> loop: one time cell.\<close>

definition rmCell :: "RTTask list \<Rightarrow> RMState \<Rightarrow> RMState" where
  "rmCell tasks s =
     (let s' = fold rmTask tasks (s\<lparr> selectedTask := None \<rparr>)
      in s'\<lparr> currentCell := currentCell s' + 1 \<rparr>)"

text \<open>
  The \<open>while (unattendendTasks.length > 0)\<close> loop; an overloaded system never drains,
  and \<open>None\<close> is that run.
\<close>

partial_function (option) rmWhile :: "RTTask list \<Rightarrow> RMState \<Rightarrow> RMState option" where
  "rmWhile tasks s =
     (if length (unattendendTasks s) > 0 then rmWhile tasks (rmCell tasks s) else Some s)"

declare rmWhile.simps [code]

record RTSchedulingResult =
  isScheludable :: bool
  getMapping :: "nat \<Rightarrow> bool list"
  getOrder :: "nat list"

definition getRMScheduling :: "RTTask list \<Rightarrow> RTSchedulingResult option" where
  "getRMScheduling tasks =
     (case rmWhile tasks (rmInit tasks) of
        None \<Rightarrow> None
      | Some s \<Rightarrow>
          Some \<lparr> isScheludable = True, getMapping = scheduling s, getOrder = executionOrder s \<rparr>)"

section \<open>Slack\<close>

datatype FloorRoofFunctionType = undefinedType | floorType | ceilingType

text \<open>The three values the variable \<open>mathFunction\<close> can hold.\<close>

datatype MathFunction = MathCeil | MathFloor | Identity

text \<open>
  The \<open>switch\<close> of \<open>getTaskProportion\<close>: its first two cases carry the same label
  \<open>FloorRoofFunctionType.ceiling\<close>, and the first matching case is taken.
\<close>

definition selectMathFunction :: "FloorRoofFunctionType \<Rightarrow> MathFunction" where
  "selectMathFunction functionType =
     (if functionType = ceilingType then MathCeil
      else if functionType = ceilingType then MathFloor
      else Identity)"

definition applyMathFunction :: "MathFunction \<Rightarrow> rat \<Rightarrow> rat" where
  "applyMathFunction f v =
     (case f of MathCeil \<Rightarrow> of_int \<lceil>v\<rceil> | MathFloor \<Rightarrow> of_int \<lfloor>v\<rfloor> | Identity \<Rightarrow> v)"

definition getTaskProportion :: "RTTask \<Rightarrow> int \<Rightarrow> FloorRoofFunctionType \<Rightarrow> rat" where
  "getTaskProportion task nextExpiration functionType =
     (let mathFunction = selectMathFunction functionType
      in if period task > 0 then
           applyMathFunction mathFunction (of_int nextExpiration / of_int (period task))
             * of_int (executionTime task)
         else 0)"

text \<open>
  \<open>getNextExpiration\<close>: the \<open>while\<close> loop never ends when the period is not positive
  and lies below the reference cell.
\<close>

partial_function (option) nextExpirationLoop :: "int \<Rightarrow> int \<Rightarrow> int \<Rightarrow> int option" where
  "nextExpirationLoop result referenceCell period' =
     (if result < referenceCell
      then nextExpirationLoop (result + period') referenceCell period'
      else Some result)"

declare nextExpirationLoop.simps [code]

definition getNextExpiration :: "int \<Rightarrow> int \<Rightarrow> int option" where
  "getNextExpiration referenceCell period' = nextExpirationLoop period' referenceCell period'"

fun slackExpirationsLoop :: "RTTask list \<Rightarrow> int \<Rightarrow> int \<Rightarrow> int list \<Rightarrow> int list option" where
  "slackExpirationsLoop [] lowerLimit nextExpiration results = Some results"
| "slackExpirationsLoop (task # rest) lowerLimit nextExpiration results =
     (case getNextExpiration lowerLimit (period task) of
        None \<Rightarrow> None
      | Some taskNextExpiration \<Rightarrow>
          slackExpirationsLoop rest lowerLimit nextExpiration
            (if taskNextExpiration \<ge> lowerLimit \<and> taskNextExpiration \<le> nextExpiration
             then results @ [taskNextExpiration] else results))"

definition getSlackExpirations :: "RTTask list \<Rightarrow> int \<Rightarrow> int \<Rightarrow> int \<Rightarrow> int list option" where
  "getSlackExpirations tasks nextExpiration responseCell taskExecutionTime =
     (let lowerLimit = nextExpiration - responseCell + taskExecutionTime
      in slackExpirationsLoop tasks lowerLimit nextExpiration [])"

definition calculateF :: "RTTask \<Rightarrow> int" where
  "calculateF task = 0"

text \<open>
  The inner loop of \<open>calculateTaskSlack\<close> over \<open>k = 0 .. taskIndex\<close>: reading a task
  past the end of the list gives \<open>undefined\<close>, and calling \<open>getPeriod\<close> on it throws.
\<close>

definition partialSum :: "RTTask list \<Rightarrow> nat \<Rightarrow> int \<Rightarrow> error + rat" where
  "partialSum tasks taskIndex intervalExpiration =
     (if taskIndex < length tasks then
        Inr (\<Sum>task \<leftarrow> take (taskIndex + 1) tasks.
               getTaskProportion task intervalExpiration ceilingType)
      else Inl TypeError)"

fun partialSlacksLoop :: "RTTask list \<Rightarrow> nat \<Rightarrow> int \<Rightarrow> int \<Rightarrow> int list \<Rightarrow> error + rat list" where
  "partialSlacksLoop tasks taskIndex nextExpiration F [] = Inr []"
| "partialSlacksLoop tasks taskIndex nextExpiration F (intervalExpiration # rest) =
     (case partialSum tasks taskIndex intervalExpiration of
        Inl e \<Rightarrow> Inl e
      | Inr sm \<Rightarrow>
          (case partialSlacksLoop tasks taskIndex nextExpiration F rest of
             Inl e \<Rightarrow> Inl e
           | Inr slacks \<Rightarrow> Inr ((of_int nextExpiration - of_int F - sm) # slacks)))"

text \<open>\<open>math.min\<close> of an array; the library throws on an empty one.\<close>

definition math_min :: "rat list \<Rightarrow> error + rat" where
  "math_min xs = (case xs of [] \<Rightarrow> Inl EmptyMin | x # rest \<Rightarrow> Inr (fold min rest x))"

text \<open>
  \<open>calculateTaskSlack\<close>; the outer \<open>option\<close> is for a run of \<open>getNextExpiration\<close>
  that never returns.
\<close>

definition calculateTaskSlack :: "RTTask list \<Rightarrow> RTTask \<Rightarrow> int \<Rightarrow> nat \<Rightarrow> (error + rat) option" where
  "calculateTaskSlack tasks task responseTime taskIndex =
     (let F = (if responseTime \<le> period task then 0 else calculateF task)
      in case getSlackExpirations tasks (period task) responseTime (executionTime task) of
           None \<Rightarrow> None
         | Some intervalExpirations \<Rightarrow>
             (let nextExpiration = period task
              in case partialSlacksLoop tasks taskIndex nextExpiration F intervalExpirations of
                   Inl e \<Rightarrow> Some (Inl e)
                 | Inr partialSlacks \<Rightarrow>
                     (case math_min partialSlacks of
                        Inl e \<Rightarrow> Some (Inl e)
                      | Inr slack \<Rightarrow> Some (Inr (if slack = - 1 then 0 else slack)))))"

section \<open>Notions used in the statements\<close>

text \<open>The utilization of a task is what the constructor computes from its fields.\<close>

definition constructed :: "nat \<Rightarrow> RTTask \<Rightarrow> bool" where
  "constructed dd task =
     (fu task = math_round (if period task > 0
                            then rat_of_int (executionTime task) / rat_of_int (period task)
                            else 0) dd)"

text \<open>
  The Liu and Layland bound as the specification writes it, \<open>n * (2^(1/n) - 1)\<close>,
  without the rounding to two decimals that \<open>getLiu\<close> applies.
\<close>

definition liuBound :: "nat \<Rightarrow> real" where
  "liuBound n = real n * (2 powr (1 / real n) - 1)"

text \<open>
  The ceiling-based demand of the tasks \<open>0 .. taskIndex\<close> at an expiration instant.
\<close>

definition demand :: "RTTask list \<Rightarrow> nat \<Rightarrow> int \<Rightarrow> int" where
  "demand tasks k e =
     (\<Sum>task \<leftarrow> take (k + 1) tasks.
        if period task > 0 then ceil_quot e (period task) * executionTime task else 0)"

text \<open>
  A task list as the specification assumes it: positive periods, execution times that are
  not negative.
\<close>

definition wellFormed :: "RTTask list \<Rightarrow> bool" where
  "wellFormed tasks = list_all (\<lambda>t. 0 < period t \<and> 0 \<le> executionTime t) tasks"

text \<open>Whether the task is the one that runs in the current cell.\<close>

definition runs :: "RTTask \<Rightarrow> RMState \<Rightarrow> bool" where
  "runs t s = (selectedTask s = None \<and> tid t \<in> set (unattendendTasks (rmRelease t s)))"

text \<open>
  The state of the table inside a cell with index \<open>n\<close>, after the tasks \<open>ps\<close> have
  been handled and before the tasks \<open>rest\<close> are.
\<close>

definition cellInv :: "nat \<Rightarrow> RTTask list \<Rightarrow> RTTask list \<Rightarrow> RMState \<Rightarrow> bool" where
  "cellInv n ps rest s \<longleftrightarrow>
     length (executionOrder s) = n + (if selectedTask s = None then 0 else 1) \<and>
     (\<forall>t\<in>set ps. length (scheduling s (tid t)) = Suc n) \<and>
     (\<forall>t\<in>set rest. length (scheduling s (tid t)) = n) \<and>
     (selectedTask s = None \<longrightarrow>
        (\<forall>t\<in>set ps. \<not> scheduling s (tid t) ! n) \<and>
        (\<exists>t\<in>set rest. tid t \<in> set (unattendendTasks s))) \<and>
     (selectedTask s \<noteq> None \<longrightarrow>
        executionOrder s ! n \<in> tid ` set ps \<and>
        (\<forall>t\<in>set ps. scheduling s (tid t) ! n = (executionOrder s ! n = tid t))) \<and>
     set (unattendendTasks s) \<subseteq> tid ` set (ps @ rest)"

text \<open>The state of the table between two cells.\<close>

definition tableInv :: "RTTask list \<Rightarrow> RMState \<Rightarrow> bool" where
  "tableInv tasks s \<longleftrightarrow>
     currentCell s = int (length (executionOrder s)) \<and>
     (\<forall>t\<in>set tasks. length (scheduling s (tid t)) = length (executionOrder s)) \<and>
     (\<forall>k<length (executionOrder s).
        executionOrder s ! k \<in> tid ` set tasks \<and>
        (\<forall>t\<in>set tasks. scheduling s (tid t) ! k = (executionOrder s ! k = tid t))) \<and>
     set (unattendendTasks s) \<subseteq> tid ` set tasks"

text \<open>The number of true occupancy bits of a row.\<close>

definition trueBits :: "bool list \<Rightarrow> nat" where
  "trueBits row = length (filter (\<lambda>b. b) row)"

text \<open>
  What the simulation holds about one task: its next start, its execution count, the
  number of true bits of its row, and whether it is pending.
\<close>

definition taskView :: "RMState \<Rightarrow> nat \<Rightarrow> int \<times> int \<times> nat \<times> bool" where
  "taskView s i =
     (nextStart s i, executionCount s i, trueBits (scheduling s i), i \<in> set (unattendendTasks s))"

text \<open>
  What one cell does to these four values of a task, where \<open>b\<close> says whether the task
  is the one selected in the cell.
\<close>

definition taskStep :: "RTTask \<Rightarrow> int \<Rightarrow> bool \<Rightarrow> int \<times> int \<times> nat \<times> bool \<Rightarrow> int \<times> int \<times> nat \<times> bool" where
  "taskStep t c b v =
     (case v of (ns, ec, tc, p) \<Rightarrow>
        (let ns1 = (if c = ns then ns + period t else ns);
             ec1 = (if c = ns then 0 else ec);
             p1 = (c = ns \<or> p)
         in if b \<and> p1 then (ns1, ec1 + 1, tc + 1, \<not> (ec1 + 1 \<ge> executionTime t))
            else (ns1, ec1, tc, p1)))"

text \<open>
  \<open>r\<close> releases of the task lie at or before cell \<open>c\<close> (the one at time 0 included),
  and the next one is due at \<open>ns\<close>.
\<close>

definition released :: "RTTask \<Rightarrow> int \<Rightarrow> int \<Rightarrow> int \<Rightarrow> bool" where
  "released t c ns r \<longleftrightarrow>
     1 \<le> r \<and> ns = r * period t \<and> c \<le> r * period t \<and> ((r - 1) * period t < c \<or> r = 1)"

text \<open>
  What holds of the four values of a task between two cells in every run: the execution
  count stays within \<open>max 1 executionTime\<close>, a task that is not pending has completed
  an instance, and each release accounts for at most \<open>max 1 executionTime\<close> true bits.
\<close>

definition boundInv :: "RTTask \<Rightarrow> int \<Rightarrow> int \<times> int \<times> nat \<times> bool \<Rightarrow> bool" where
  "boundInv t c v =
     (case v of (ns, ec, tc, p) \<Rightarrow>
        (\<exists>r. released t c ns r \<and> 0 \<le> ec \<and> ec \<le> int tc \<and> ec \<le> max 1 (executionTime t) \<and>
             (p \<longrightarrow> ec < max 1 (executionTime t)) \<and>
             (\<not> p \<longrightarrow> max 1 (executionTime t) \<le> int tc) \<and>
             int tc \<le> max 1 (executionTime t) * (r - 1) + ec))"

text \<open>
  What holds in a run without overruns: each completed release accounts for exactly
  \<open>max 1 executionTime\<close> true bits.
\<close>

definition exactInv :: "RTTask \<Rightarrow> int \<Rightarrow> int \<times> int \<times> nat \<times> bool \<Rightarrow> bool" where
  "exactInv t c v =
     (case v of (ns, ec, tc, p) \<Rightarrow>
        (\<exists>r. released t c ns r \<and>
             (p \<longrightarrow> int tc = max 1 (executionTime t) * (r - 1) + ec \<and> 0 \<le> ec \<and>
                    ec < max 1 (executionTime t)) \<and>
             (\<not> p \<longrightarrow> int tc = max 1 (executionTime t) * r)))"

text \<open>
  A task overruns when its next release is due in the current cell while it is still
  pending.  \<open>rmNoOverrun\<close> follows the same loop as \<open>rmWhile\<close> and reports whether the
  run is free of overruns.
\<close>

definition overrun :: "RTTask list \<Rightarrow> RMState \<Rightarrow> bool" where
  "overrun tasks s =
     list_ex (\<lambda>t. currentCell s = nextStart s (tid t) \<and> tid t \<in> set (unattendendTasks s)) tasks"

partial_function (option) rmNoOverrun :: "RTTask list \<Rightarrow> RMState \<Rightarrow> bool option" where
  "rmNoOverrun tasks s =
     (if length (unattendendTasks s) > 0 then
        (if overrun tasks s then Some False else rmNoOverrun tasks (rmCell tasks s))
      else Some True)"

declare rmNoOverrun.simps [code]

text \<open>The two invariants for all tasks of the system.\<close>

definition countInv :: "RTTask list \<Rightarrow> RMState \<Rightarrow> bool" where
  "countInv tasks s \<longleftrightarrow>
     tableInv tasks s \<and>
     list_all (\<lambda>t. boundInv t (currentCell s) (taskView s (tid t))) tasks"

definition exactCountInv :: "RTTask list \<Rightarrow> RMState \<Rightarrow> bool" where
  "exactCountInv tasks s \<longleftrightarrow>
     list_all (\<lambda>t. exactInv t (currentCell s) (taskView s (tid t))) tasks"

section \<open>Example systems\<close>

text \<open>
  Task lists as the parser builds them, at two decimals, from the texts
  \<open>(49,50,50),(50,50,50)\<close>, \<open>(1,5,5),(1,7,7),(1,12,12)\<close>, \<open>(1,3,3),(1,3,3),(1,3,3)\<close>,
  \<open>(1,2,2),(33,100,100)\<close>, \<open>(1,2,2)\<close>, \<open>(7,5,5)\<close>, \<open>(3,5,5),(3,5,5)\<close>,
  \<open>(99,100,100),(60,10000,10000)\<close>, the five tasks of the first scenario of the
  specification, and \<open>(1,2,2),(1,3,3)\<close>.
\<close>

definition capSystem :: "RTTask list" where
  "capSystem =
     [\<lparr> tid = 1, executionTime = 49, period = 50, expire = 50, fu = 49 / 50 \<rparr>,
      \<lparr> tid = 2, executionTime = 50, period = 50, expire = 50, fu = 1 \<rparr>]"

definition seedSystem :: "RTTask list" where
  "seedSystem =
     [\<lparr> tid = 1, executionTime = 1, period = 5, expire = 5, fu = 1 / 5 \<rparr>,
      \<lparr> tid = 2, executionTime = 1, period = 7, expire = 7, fu = 14 / 100 \<rparr>,
      \<lparr> tid = 3, executionTime = 1, period = 12, expire = 12, fu = 8 / 100 \<rparr>]"

definition thirdsSystem :: "RTTask list" where
  "thirdsSystem =
     [\<lparr> tid = 1, executionTime = 1, period = 3, expire = 3, fu = 33 / 100 \<rparr>,
      \<lparr> tid = 2, executionTime = 1, period = 3, expire = 3, fu = 33 / 100 \<rparr>,
      \<lparr> tid = 3, executionTime = 1, period = 3, expire = 3, fu = 33 / 100 \<rparr>]"

definition liuSystem :: "RTTask list" where
  "liuSystem =
     [\<lparr> tid = 1, executionTime = 1, period = 2, expire = 2, fu = 1 / 2 \<rparr>,
      \<lparr> tid = 2, executionTime = 33, period = 100, expire = 100, fu = 33 / 100 \<rparr>]"

definition halfSystem :: "RTTask list" where
  "halfSystem = [\<lparr> tid = 1, executionTime = 1, period = 2, expire = 2, fu = 1 / 2 \<rparr>]"

definition sevenSystem :: "RTTask list" where
  "sevenSystem = [\<lparr> tid = 1, executionTime = 7, period = 5, expire = 5, fu = 7 / 5 \<rparr>]"

definition normSystem :: "RTTask list" where
  "normSystem =
     [\<lparr> tid = 1, executionTime = 3, period = 5, expire = 5, fu = 3 / 5 \<rparr>,
      \<lparr> tid = 2, executionTime = 3, period = 5, expire = 5, fu = 3 / 5 \<rparr>]"

definition slowSystem :: "RTTask list" where
  "slowSystem =
     [\<lparr> tid = 1, executionTime = 99, period = 100, expire = 100, fu = 99 / 100 \<rparr>,
      \<lparr> tid = 2, executionTime = 60, period = 10000, expire = 10000, fu = 1 / 100 \<rparr>]"

definition fiveSystem :: "RTTask list" where
  "fiveSystem =
     [\<lparr> tid = 1, executionTime = 1, period = 5, expire = 5, fu = 1 / 5 \<rparr>,
      \<lparr> tid = 2, executionTime = 1, period = 7, expire = 7, fu = 14 / 100 \<rparr>,
      \<lparr> tid = 3, executionTime = 1, period = 12, expire = 12, fu = 8 / 100 \<rparr>,
      \<lparr> tid = 4, executionTime = 1, period = 14, expire = 14, fu = 7 / 100 \<rparr>,
      \<lparr> tid = 5, executionTime = 2, period = 25, expire = 25, fu = 8 / 100 \<rparr>]"

definition twoSystem :: "RTTask list" where
  "twoSystem =
     [\<lparr> tid = 1, executionTime = 1, period = 2, expire = 2, fu = 1 / 2 \<rparr>,
      \<lparr> tid = 2, executionTime = 1, period = 3, expire = 3, fu = 33 / 100 \<rparr>]"

section \<open>Facts about numbers and the constructor\<close>

lemma ceil_quot_div [code]: "ceil_quot a b = - ((- a) div b)"
  unfolding ceil_quot_def by (rule ceiling_divide_eq_div)

lemma math_round_of_int: "math_round (of_int k :: 'a::floor_ceiling) n = of_int k"
proof -
  have "\<lfloor>(of_int (k * 10 ^ n) :: 'a) + 1 / 2\<rfloor> = k * 10 ^ n"
    by (rule floor_unique) simp_all
  then have "\<lfloor>(of_int k :: 'a) * 10 ^ n + 1 / 2\<rfloor> = k * 10 ^ n"
    by simp
  then show ?thesis by (simp add: math_round_def)
qed

lemma new_RTTask_fields:
  "tid (new_RTTask dd i c t d) = i"
  "executionTime (new_RTTask dd i c t d) = parseFloat c"
  "period (new_RTTask dd i c t d) = parseFloat t"
  "expire (new_RTTask dd i c t d) = parseFloat d"
  by (simp_all add: new_RTTask_def Let_def math_round_of_int)

lemma new_RTTask_fu:
  "fu (new_RTTask dd i c t d) =
     math_round (if parseFloat t > 0
                 then rat_of_int (parseFloat c) / rat_of_int (parseFloat t) else 0) dd"
  by (simp add: new_RTTask_def Let_def math_round_of_int)

lemma new_RTTask_eq:
  "new_RTTask dd i c t d =
     \<lparr> tid = i, executionTime = parseFloat c, period = parseFloat t, expire = parseFloat d,
       fu = math_round (if parseFloat t > 0
                        then rat_of_int (parseFloat c) / rat_of_int (parseFloat t) else 0) dd \<rparr>"
  by (simp add: new_RTTask_def Let_def math_round_of_int)

lemmas parse_eval =
  parseSystemTasks_def parseTask_def match_here_def digits_then_def is_digit_def
  new_RTTask_eq parseFloat_def digit_val_def

lemma math_round_two_decimals:
  "math_round (49 / 50 :: rat) 2 = 49 / 50"
  "math_round (1 :: rat) 2 = 1"
  "math_round (1 / 3 :: rat) 2 = 33 / 100"
  "math_round (1 / 2 :: rat) 2 = 1 / 2"
  "math_round (33 / 100 :: rat) 2 = 33 / 100"
  by (simp_all add: math_round_def floor_eq_iff)

section \<open>The parser: what it builds\<close>

text \<open>
  The tasks of a parsed system carry the ids 1, 2, ... in order, and their three numbers
  are not negative; a period of 0 is the only way such a system can fail to be
  well-formed.
\<close>

lemma parseTask_tid: "parseTask dd i x = Inr t \<Longrightarrow> tid t = i"
  by (auto simp: parseTask_def new_RTTask_fields split: option.splits prod.splits)

lemma scan_ids:
  "scan dd s st cur acc i = Inr ts \<Longrightarrow> map tid acc = [1..<i] \<Longrightarrow> 0 < i \<Longrightarrow>
   map tid ts = [1..<Suc (length ts)]"
proof (induction dd s st cur acc i rule: scan.induct)
  case (1 dd charStack currentTask tasks taskId)
  have len: "length tasks = taskId - 1"
    using "1.prems"(2) by (metis length_map length_upt)
  show ?case
  proof (cases "length currentTask > 0")
    case True
    with "1.prems" obtain t where
      t: "parseTask dd taskId currentTask = Inr t" and ts: "ts = tasks @ [t]"
      by (auto split: if_splits sum.splits)
    have "map tid ts = [1..<taskId] @ [taskId]"
      using "1.prems"(2) parseTask_tid[OF t] by (simp add: ts)
    also have "\<dots> = [1..<Suc taskId]" using "1.prems"(3) by simp
    finally show ?thesis using len "1.prems"(3) by (simp add: ts)
  next
    case False
    with "1.prems" have "ts = tasks" by (auto split: if_splits)
    then show ?thesis using "1.prems"(2,3) len by simp
  qed
next
  case (2 dd ch rest charStack currentTask tasks taskId)
  show ?case
  proof (cases "ch = CHR '','' \<and> \<not> length charStack > 0")
    case True
    with "2.prems"(1) obtain t where
      t: "parseTask dd taskId currentTask = Inr t" and
      run: "scan dd rest charStack [] (tasks @ [t]) (taskId + 1) = Inr ts"
      by (auto split: sum.splits)
    have ids: "map tid (tasks @ [t]) = [1..<taskId + 1]"
      using "2.prems"(2,3) parseTask_tid[OF t] by simp
    from True have c: "ch \<noteq> CHR '' ''" "ch \<noteq> CHR ''(''" "ch \<noteq> CHR '')''" "ch = CHR '',''"
      "\<not> 0 < length charStack" by auto
    from "2.IH"(5)[OF c t run ids] show ?thesis by simp
  next
    case False
    then show ?thesis
      using "2.prems" "2.IH"(1,2,3,4,6)
      by (auto split: if_splits)
  qed
qed

lemma parseSystemTasks_ids:
  "parseSystemTasks dd text = Inr tasks \<Longrightarrow> map tid tasks = [1..<Suc (length tasks)]"
  unfolding parseSystemTasks_def by (erule scan_ids) simp_all

lemma parseSystemTasks_distinct:
  "parseSystemTasks dd text = Inr tasks \<Longrightarrow> distinct (map tid tasks)"
  by (drule parseSystemTasks_ids) simp


lemma parseFloat_nonneg: "0 \<le> parseFloat ds"
  by (simp add: parseFloat_def)

lemma parseTask_nonneg:
  "parseTask dd i x = Inr t \<Longrightarrow> 0 \<le> executionTime t \<and> 0 \<le> period t \<and> 0 \<le> expire t"
  by (auto simp: parseTask_def new_RTTask_fields parseFloat_nonneg split: option.splits prod.splits)

lemma scan_nonneg:
  "scan dd s st cur acc i = Inr ts \<Longrightarrow>
   list_all (\<lambda>t. 0 \<le> executionTime t \<and> 0 \<le> period t \<and> 0 \<le> expire t) acc \<Longrightarrow>
   list_all (\<lambda>t. 0 \<le> executionTime t \<and> 0 \<le> period t \<and> 0 \<le> expire t) ts"
proof (induction dd s st cur acc i rule: scan.induct)
  case (1 dd charStack currentTask tasks taskId)
  then show ?case
    by (auto split: if_splits sum.splits dest: parseTask_nonneg)
next
  case (2 dd ch rest charStack currentTask tasks taskId)
  then show ?case
    by (auto split: if_splits sum.splits dest: parseTask_nonneg)
qed

lemma parseSystemTasks_nonneg:
  "parseSystemTasks dd text = Inr tasks \<Longrightarrow>
   list_all (\<lambda>t. 0 \<le> executionTime t \<and> 0 \<le> period t \<and> 0 \<le> expire t) tasks"
  unfolding parseSystemTasks_def by (erule scan_nonneg) simp

lemma parseSystemTasks_wellFormed:
  "parseSystemTasks dd text = Inr tasks \<Longrightarrow>
   wellFormed tasks \<longleftrightarrow> list_all (\<lambda>t. period t \<noteq> 0) tasks"
  by (drule parseSystemTasks_nonneg) (force simp: wellFormed_def list_all_iff order_less_le)

lemma parse_empty: "parseSystemTasks dd [] = Inr []"
  by (simp add: parseSystemTasks_def)

lemma example_systems_parse:
  "parseSystemTasks 2 ''(1,5,5),(1,7,7),(1,12,12)'' = Inr seedSystem"
  "parseSystemTasks 2 ''(1,2,2)'' = Inr halfSystem"
  "parseSystemTasks 2 ''(3,5,5),(3,5,5)'' = Inr normSystem"
  "parseSystemTasks 2 ''(1,5,5),(1,7,7),(1,12,12),(1,14,14),(2,25,25)'' = Inr fiveSystem"
  by (simp_all add: parse_eval seedSystem_def halfSystem_def normSystem_def fiveSystem_def
      math_round_def floor_eq_iff)

section \<open>Response times: the iteration cap\<close>

lemma responseLoop_detects:
  "(responseStep tasks task k ^^ Suc n) seed = (responseStep tasks task k ^^ n) seed \<Longrightarrow>
   (\<forall>j<n. (responseStep tasks task k ^^ Suc j) seed \<noteq> (responseStep tasks task k ^^ j) seed) \<Longrightarrow>
   c0 + n + 1 \<le> 50 \<Longrightarrow>
   responseLoop tasks task k seed c0 = ((responseStep tasks task k ^^ n) seed, c0 + n + 1)"
proof (induction n arbitrary: seed c0)
  case 0
  then show ?case by (subst responseLoop.simps) (simp add: Let_def)
next
  case (Suc n)
  define f where "f = responseStep tasks task k"
  have ne: "seed \<noteq> f seed" using Suc.prems(2)[rule_format, of 0] by (simp add: f_def)
  have c: "c0 + 1 < 50" using Suc.prems(3) by simp
  have a: "(f ^^ Suc n) (f seed) = (f ^^ n) (f seed)"
    using Suc.prems(1) by (simp add: f_def funpow_swap1)
  have b: "\<forall>j<n. (f ^^ Suc j) (f seed) \<noteq> (f ^^ j) (f seed)"
  proof (intro allI impI)
    fix j assume "j < n"
    then have "(f ^^ Suc (Suc j)) seed \<noteq> (f ^^ Suc j) seed"
      using Suc.prems(2)[rule_format, of "Suc j"] by (simp add: f_def)
    then show "(f ^^ Suc j) (f seed) \<noteq> (f ^^ j) (f seed)" by (simp add: funpow_swap1)
  qed
  have "responseLoop tasks task k (f seed) (c0 + 1) = ((f ^^ n) (f seed), c0 + 1 + n + 1)"
    using Suc.IH[of "f seed" "c0 + 1"] a b Suc.prems(3) by (simp add: f_def)
  then show ?case
    using ne c by (subst responseLoop.simps) (simp add: Let_def f_def funpow_swap1)
qed

lemma responseLoop_exhausts:
  "(\<forall>j<n. (responseStep tasks task k ^^ Suc j) seed \<noteq> (responseStep tasks task k ^^ j) seed) \<Longrightarrow>
   c0 + n + 1 = 50 \<Longrightarrow>
   snd (responseLoop tasks task k seed c0) = 50"
proof (induction n arbitrary: seed c0)
  case 0
  then show ?case by (subst responseLoop.simps) (simp add: Let_def)
next
  case (Suc n)
  define f where "f = responseStep tasks task k"
  have ne: "seed \<noteq> f seed" using Suc.prems(1)[rule_format, of 0] by (simp add: f_def)
  have c: "c0 + 1 < 50" using Suc.prems(2) by simp
  have b: "\<forall>j<n. (f ^^ Suc j) (f seed) \<noteq> (f ^^ j) (f seed)"
  proof (intro allI impI)
    fix j assume "j < n"
    then have "(f ^^ Suc (Suc j)) seed \<noteq> (f ^^ Suc j) seed"
      using Suc.prems(1)[rule_format, of "Suc j"] by (simp add: f_def)
    then show "(f ^^ Suc j) (f seed) \<noteq> (f ^^ j) (f seed)" by (simp add: funpow_swap1)
  qed
  have "snd (responseLoop tasks task k (f seed) (c0 + 1)) = 50"
    using Suc.IH[of "f seed" "c0 + 1"] b Suc.prems(2) by (simp add: f_def)
  then show ?case
    using ne c by (subst responseLoop.simps) (simp add: Let_def f_def)
qed

text \<open>
  What \<open>getTaskResponse\<close> returns, in full: the first value of the iteration that
  repeats, when it is found by one of the passes 1 to 49, and the sentinel otherwise,
  also when pass 50 finds it.
\<close>

lemma responseFromSeed_characterisation:
  "responseFromSeed tasks task k seed =
     (if \<exists>n<49. (responseStep tasks task k ^^ Suc n) seed = (responseStep tasks task k ^^ n) seed
      then (responseStep tasks task k ^^
              (LEAST n. (responseStep tasks task k ^^ Suc n) seed = (responseStep tasks task k ^^ n) seed))
             seed
      else - 1)"
proof -
  define f where "f = responseStep tasks task k"
  define Q where "Q = (\<lambda>n. (f ^^ Suc n) seed = (f ^^ n) seed)"
  show ?thesis
  proof (cases "\<exists>n<49. Q n")
    case True
    then obtain n0 where n0: "n0 < 49" "Q n0" by blast
    define n where "n = (LEAST n. Q n)"
    have Qn: "Q n" unfolding n_def using n0(2) by (rule LeastI)
    have le: "n \<le> n0" unfolding n_def using n0(2) by (rule Least_le)
    have first: "\<forall>j<n. \<not> Q j" unfolding n_def using not_less_Least by blast
    have "responseLoop tasks task k seed 0 = ((f ^^ n) seed, 0 + n + 1)"
      unfolding f_def
      using Qn first le n0(1) by (intro responseLoop_detects) (simp_all add: Q_def f_def)
    then have "responseFromSeed tasks task k seed = (f ^^ n) seed"
      using le n0(1) by (simp add: responseFromSeed_def)
    then show ?thesis using True by (simp add: n_def Q_def f_def)
  next
    case False
    then have "\<forall>j<49. (f ^^ Suc j) seed \<noteq> (f ^^ j) seed" by (simp add: Q_def)
    then have "snd (responseLoop tasks task k seed 0) = 50"
      unfolding f_def by (intro responseLoop_exhausts[of 49]) simp_all
    then have "responseFromSeed tasks task k seed = - 1"
      by (cases "responseLoop tasks task k seed 0") (simp add: responseFromSeed_def)
    moreover have "\<not> (\<exists>n<49. (responseStep tasks task k ^^ Suc n) seed =
                          (responseStep tasks task k ^^ n) seed)"
      using False by (simp add: Q_def f_def)
    ultimately show ?thesis by (simp only: if_False)
  qed
qed

text \<open>
  Claim C1.  The response-time iteration of a task stops at a fixed point or after 50
  passes, and a fixed point reached within the cap is the reported response time.  The
  source decides between the value and the sentinel by \<open>iterationCount < 50\<close>, not by
  \<open>finish\<close>: for the system \<open>(49,50,50),(50,50,50)\<close> the second task is seeded with
  99, the 50th pass finds the fixed point 2500 (\<open>iteration\<close> is 2500 and equals the seed
  of that pass, and one more step keeps it), and \<open>getTaskTiming\<close> reports the
  sentinel \<open>-1\<close> for it.
\<close>

theorem getTaskResponse_fiftieth_iteration:
  "parseSystemTasks 2 ''(49,50,50),(50,50,50)'' = Inr capSystem \<and>
   responseLoop capSystem (capSystem ! 1) 1 (49 + 50) 0 = (2500, 50) \<and>
   responseStep capSystem (capSystem ! 1) 1 2500 = 2500 \<and>
   getTaskTiming capSystem = [49, - 1]"
proof (intro conjI)
  show "parseSystemTasks 2 ''(49,50,50),(50,50,50)'' = Inr capSystem"
    by (simp add: parse_eval capSystem_def math_round_two_decimals)
  show "responseLoop capSystem (capSystem ! 1) 1 (49 + 50) 0 = (2500, 50)"
    by code_simp
  show "responseStep capSystem (capSystem ! 1) 1 2500 = 2500"
    by code_simp
  show "getTaskTiming capSystem = [49, - 1]"
    by code_simp
qed

section \<open>Response times: the seed\<close>

lemma timingLoop_length:
  "t \<le> length tasks \<Longrightarrow>
   length (timingLoop tasks t p result) = length result + (length tasks - t)"
proof (induction tasks t p result rule: timingLoop.induct)
  case (1 tasks t p result)
  show ?case
  proof (cases "t < length tasks")
    case True
    then show ?thesis
      using "1.IH"[OF True refl] by (subst timingLoop.simps) (simp add: Let_def)
  next
    case False
    then show ?thesis using "1.prems" by (subst timingLoop.simps) simp
  qed
qed

lemma timingLoop_keeps:
  "i < length result \<Longrightarrow> timingLoop tasks t p result ! i = result ! i"
proof (induction tasks t p result rule: timingLoop.induct)
  case (1 tasks t p result)
  show ?case
  proof (cases "t < length tasks")
    case True
    then show ?thesis
      using "1.IH"[OF True refl] "1.prems"
      by (subst timingLoop.simps) (simp add: Let_def nth_append)
  next
    case False
    then show ?thesis by (subst timingLoop.simps) simp
  qed
qed

lemma timingLoop_chain:
  "length result = t \<Longrightarrow> 0 < t \<Longrightarrow> p = result ! (t - 1) \<Longrightarrow> t \<le> i \<Longrightarrow> i < length tasks \<Longrightarrow>
   timingLoop tasks t p result ! i =
     getTaskResponse tasks (tasks ! i) (timingLoop tasks t p result ! (i - 1)) i"
proof (induction tasks t p result arbitrary: i rule: timingLoop.induct)
  case (1 tasks t p result)
  have lt: "t < length tasks" using "1.prems" by simp
  define p' where "p' = getTaskResponse tasks (tasks ! t) p t"
  have unfold: "timingLoop tasks t p result = timingLoop tasks (t + 1) p' (result @ [p'])"
    using lt by (subst timingLoop.simps) (simp add: Let_def p'_def)
  show ?case
  proof (cases "i = t")
    case True
    have a: "timingLoop tasks (t + 1) p' (result @ [p']) ! t = p'"
      using "1.prems"(1) by (simp add: timingLoop_keeps nth_append)
    have b: "timingLoop tasks (t + 1) p' (result @ [p']) ! (t - 1) = p"
      using "1.prems"(1,2,3) by (simp add: timingLoop_keeps nth_append)
    show ?thesis unfolding unfold True a b by (simp add: p'_def)
  next
    case False
    then have "t + 1 \<le> i" using "1.prems" by simp
    then show ?thesis
      unfolding unfold
      using "1.IH"[OF lt refl, of i] "1.prems" by (simp add: p'_def nth_append)
  qed
qed

lemma getTaskTiming_length: "length (getTaskTiming tasks) = length tasks"
proof (cases tasks)
  case Nil
  then show ?thesis by (simp add: getTaskTiming_def)
next
  case (Cons a list)
  then have n1: "1 \<le> length tasks" by simp
  show ?thesis
    using Cons timingLoop_length[OF n1, of "executionTime (tasks ! 0)" "[executionTime (tasks ! 0)]"]
    by (simp add: getTaskTiming_def)
qed

lemma getTaskTiming_first:
  "tasks \<noteq> [] \<Longrightarrow> getTaskTiming tasks ! 0 = executionTime (tasks ! 0)"
  by (simp add: getTaskTiming_def timingLoop_keeps)

lemma getTaskTiming_next:
  assumes "0 < i" and "i < length tasks"
  shows "getTaskTiming tasks ! i =
           getTaskResponse tasks (tasks ! i) (getTaskTiming tasks ! (i - 1)) i"
proof -
  have "timingLoop tasks 1 (executionTime (tasks ! 0)) [executionTime (tasks ! 0)] ! i =
        getTaskResponse tasks (tasks ! i)
          (timingLoop tasks 1 (executionTime (tasks ! 0)) [executionTime (tasks ! 0)] ! (i - 1)) i"
    using assms by (intro timingLoop_chain) simp_all
  moreover have "tasks \<noteq> []" using assms by auto
  ultimately show ?thesis
    by (simp add: getTaskTiming_def)
qed

text \<open>
  Claim C2.  \<open>getTaskTiming\<close> gives the first task its own execution time, and for
  every later task \<open>i\<close> the reported value is the outcome of the capped iteration
  started from the seed \<open>previous response time + execution time of task i\<close>, over the
  \<open>i\<close> tasks before it.
\<close>

theorem getTaskTiming_seed:
  assumes "tasks \<noteq> []"
  shows "length (getTaskTiming tasks) = length tasks \<and>
         getTaskTiming tasks ! 0 = executionTime (tasks ! 0) \<and>
         (\<forall>i. 0 < i \<and> i < length tasks \<longrightarrow>
            getTaskTiming tasks ! i =
              responseFromSeed tasks (tasks ! i) i
                (getTaskTiming tasks ! (i - 1) + executionTime (tasks ! i)))"
  using assms
  by (simp add: getTaskTiming_length getTaskTiming_first getTaskTiming_next
      getTaskResponse_def)

text \<open>The theorem for claim C2 at a system of three tasks.\<close>

theorem getTaskTiming_seed_witness:
  "seedSystem \<noteq> [] \<and>
   getTaskTiming seedSystem = [1, 2, 3] \<and>
   getTaskTiming seedSystem ! 0 = executionTime (seedSystem ! 0) \<and>
   getTaskTiming seedSystem ! 2 =
     responseFromSeed seedSystem (seedSystem ! 2) 2
       (getTaskTiming seedSystem ! 1 + executionTime (seedSystem ! 2))"
proof -
  have ne: "seedSystem \<noteq> []" by (simp add: seedSystem_def)
  have len: "length seedSystem = 3" by (simp add: seedSystem_def)
  have val: "getTaskTiming seedSystem = [1, 2, 3]" by code_simp
  from getTaskTiming_seed[OF ne] have
    "getTaskTiming seedSystem ! 0 = executionTime (seedSystem ! 0)" and
    all: "\<forall>i. 0 < i \<and> i < length seedSystem \<longrightarrow>
            getTaskTiming seedSystem ! i =
              responseFromSeed seedSystem (seedSystem ! i) i
                (getTaskTiming seedSystem ! (i - 1) + executionTime (seedSystem ! i))"
    by simp_all
  moreover from all[rule_format, of 2] len have
    "getTaskTiming seedSystem ! 2 =
       responseFromSeed seedSystem (seedSystem ! 2) 2
         (getTaskTiming seedSystem ! 1 + executionTime (seedSystem ! 2))"
    by simp
  ultimately show ?thesis using ne val by simp
qed

section \<open>The parser: surplus closing parentheses\<close>

lemma parseFloat_digits:
  "parseFloat ''1'' = 1" "parseFloat ''2'' = 2" "parseFloat ''3'' = 3"
  by (simp_all add: parseFloat_def digit_val_def)

lemma parse_surplus:
  "parseSystemTasks dd ''(1,2,3))'' = Inr [new_RTTask dd 1 ''1'' ''2'' ''3'']"
  by (simp add: parseSystemTasks_def parseTask_def match_here_def digits_then_def is_digit_def)

text \<open>The sibling case and the example of the specification do fail.\<close>

lemma parse_unclosed: "parseSystemTasks dd ''((1,2,3)'' = Inl ParsingFailed"
  by (simp add: parseSystemTasks_def)

lemma parse_missing_field: "parseSystemTasks dd ''(1,5),(2,7,7)'' = Inl TypeError"
  by (simp add: parseSystemTasks_def parseTask_def match_here_def digits_then_def is_digit_def)

text \<open>
  Claim C7.  A text with an unbalanced parenthesis at the end of the input must make the
  construction fail.  The scanner pops the stack at every closing parenthesis, also when
  the stack is empty, and the pattern is searched anywhere in the accumulated text: the
  input \<open>(1,2,3))\<close>, whose last parenthesis closes nothing, is accepted and gives the
  one-task system \<open>(1,2,3)\<close>, for every number of decimals.
\<close>

theorem parseSystemTasks_surplus_parenthesis:
  "parseSystemTasks dd ''(1,2,3))'' = Inr [new_RTTask dd 1 ''1'' ''2'' ''3''] \<and>
   tid (new_RTTask dd 1 ''1'' ''2'' ''3'') = 1 \<and>
   executionTime (new_RTTask dd 1 ''1'' ''2'' ''3'') = 1 \<and>
   period (new_RTTask dd 1 ''1'' ''2'' ''3'') = 2 \<and>
   expire (new_RTTask dd 1 ''1'' ''2'' ''3'') = 3"
  by (simp add: parse_surplus new_RTTask_fields parseFloat_digits)

section \<open>Slack: the proportion function\<close>

lemma quotient_is_floor_iff:
  assumes "T \<noteq> 0"
  shows "rat_of_int e / rat_of_int T = rat_of_int \<lfloor>rat_of_int e / rat_of_int T\<rfloor> \<longleftrightarrow> T dvd e"
proof
  assume a: "rat_of_int e / rat_of_int T = rat_of_int \<lfloor>rat_of_int e / rat_of_int T\<rfloor>"
  define k where "k = \<lfloor>rat_of_int e / rat_of_int T\<rfloor>"
  have "rat_of_int e = rat_of_int k * rat_of_int T"
    using a assms by (simp add: k_def field_simps)
  then have "e = k * T" by (metis of_int_eq_iff of_int_mult)
  then show "T dvd e" by simp
next
  assume "T dvd e"
  then have "rat_of_int e / rat_of_int T \<in> \<int>" by (rule of_int_divide_in_Ints)
  then show "rat_of_int e / rat_of_int T = rat_of_int \<lfloor>rat_of_int e / rat_of_int T\<rfloor>"
    by (simp add: of_int_floor_cancel)
qed

text \<open>
  With the floor flag the value differs from \<open>floor(nextExpiration / period) *
  executionTime\<close> exactly when the period is positive, the execution time is not 0 and
  the period does not divide the expiration instant.
\<close>

lemma getTaskProportion_floor_flag_differs:
  "getTaskProportion task e floorType \<noteq>
     (if period task > 0
      then of_int \<lfloor>rat_of_int e / of_int (period task)\<rfloor> * of_int (executionTime task) else 0)
   \<longleftrightarrow> period task > 0 \<and> executionTime task \<noteq> 0 \<and> \<not> period task dvd e"
proof (cases "period task > 0")
  case True
  then have T: "period task \<noteq> 0" by simp
  define x where "x = rat_of_int e / rat_of_int (period task)"
  define c where "c = rat_of_int (executionTime task)"
  have v: "getTaskProportion task e floorType = x * c"
    using True
    by (simp add: getTaskProportion_def selectMathFunction_def applyMathFunction_def x_def c_def)
  have "x * c \<noteq> rat_of_int \<lfloor>x\<rfloor> * c \<longleftrightarrow> c \<noteq> 0 \<and> x \<noteq> rat_of_int \<lfloor>x\<rfloor>"
    by auto
  moreover have "c \<noteq> 0 \<longleftrightarrow> executionTime task \<noteq> 0" by (simp add: c_def)
  moreover have "x \<noteq> rat_of_int \<lfloor>x\<rfloor> \<longleftrightarrow> \<not> period task dvd e"
    unfolding x_def using quotient_is_floor_iff[OF T, of e] by simp
  ultimately show ?thesis
    unfolding v using True by (simp add: x_def c_def)
next
  case False
  then show ?thesis by (simp add: getTaskProportion_def)
qed

text \<open>
  Claim C9.  In \<open>getTaskProportion\<close> the case that selects the floor function repeats
  the label of the ceiling case and is never taken: no flag value selects the floor
  function; with the floor flag the identity is applied, so the operation returns the
  unrounded quotient times the execution time, and as a function of task and expiration
  instant it is not \<open>floor(nextExpiration / period) * executionTime\<close>.
\<close>

theorem floor_branch_unreachable:
  "(\<forall>functionType. selectMathFunction functionType \<noteq> MathFloor) \<and>
   (\<forall>task e. getTaskProportion task e floorType =
      (if period task > 0 then of_int e / of_int (period task) * of_int (executionTime task) else 0)) \<and>
   (\<lambda>task e. getTaskProportion task e floorType) \<noteq>
   (\<lambda>task e. if period task > 0
              then of_int \<lfloor>rat_of_int e / of_int (period task)\<rfloor> * of_int (executionTime task) else 0)"
proof (intro conjI allI)
  fix functionType
  show "selectMathFunction functionType \<noteq> MathFloor"
    by (simp add: selectMathFunction_def)
next
  fix task e
  show "getTaskProportion task e floorType =
      (if period task > 0 then of_int e / of_int (period task) * of_int (executionTime task) else 0)"
    by (simp add: getTaskProportion_def selectMathFunction_def applyMathFunction_def)
next
  let ?t = "\<lparr> tid = 1, executionTime = 1, period = 5, expire = 5, fu = 1 / 5 \<rparr>"
  have a: "getTaskProportion ?t 7 floorType = 7 / 5"
    by (simp add: getTaskProportion_def selectMathFunction_def applyMathFunction_def)
  have "\<lfloor>(7::rat) / 5\<rfloor> = 1" by (simp add: floor_eq_iff)
  then have b: "(if period ?t > 0
              then of_int \<lfloor>rat_of_int 7 / of_int (period ?t)\<rfloor> * of_int (executionTime ?t) else 0) = (1::rat)"
    by simp
  show "(\<lambda>task e. getTaskProportion task e floorType) \<noteq>
   (\<lambda>task e. if period task > 0
              then of_int \<lfloor>rat_of_int e / of_int (period task)\<rfloor> * of_int (executionTime task) else 0)"
  proof
    assume "(\<lambda>task e. getTaskProportion task e floorType) =
   (\<lambda>task e. if period task > 0
              then of_int \<lfloor>rat_of_int e / of_int (period task)\<rfloor> * of_int (executionTime task) else 0)"
    then have "getTaskProportion ?t 7 floorType = (if period ?t > 0
              then of_int \<lfloor>rat_of_int 7 / of_int (period ?t)\<rfloor> * of_int (executionTime ?t) else 0)"
      by (rule fun_cong[THEN fun_cong])
    then have "(7::rat) / 5 = 1" unfolding a b .
    then show False by simp
  qed
qed

section \<open>Total utilization\<close>

lemma constructed_new_RTTask: "constructed dd (new_RTTask dd i c t d)"
  by (simp add: constructed_def new_RTTask_fields new_RTTask_fu)

lemma parseTask_constructed: "parseTask dd i x = Inr t \<Longrightarrow> constructed dd t"
  by (auto simp: parseTask_def constructed_new_RTTask split: option.splits prod.splits)

lemma scan_constructed:
  "scan dd s st cur acc i = Inr ts \<Longrightarrow> list_all (constructed dd) acc \<Longrightarrow>
   list_all (constructed dd) ts"
proof (induction dd s st cur acc i rule: scan.induct)
  case (1 dd charStack currentTask tasks taskId)
  then show ?case
    by (auto split: if_splits sum.splits dest: parseTask_constructed)
next
  case (2 dd ch rest charStack currentTask tasks taskId)
  then show ?case
    by (auto split: if_splits sum.splits dest: parseTask_constructed)
qed

lemma parseSystemTasks_constructed:
  "parseSystemTasks dd text = Inr tasks \<Longrightarrow> list_all (constructed dd) tasks"
  unfolding parseSystemTasks_def by (erule scan_constructed) simp

lemma math_round_decimal:
  "math_round (of_int k / 10 ^ n :: 'a::floor_ceiling) n = of_int k / 10 ^ n"
proof -
  have "\<lfloor>(of_int k :: 'a) + 1 / 2\<rfloor> = k"
    by (rule floor_unique) simp_all
  then show ?thesis by (simp add: math_round_def)
qed

lemma math_round_is_decimal: "\<exists>k. math_round x n = of_int k / 10 ^ n"
  by (auto simp: math_round_def)

lemma sum_list_decimal:
  "list_all (\<lambda>x. \<exists>k. x = (of_int k / 10 ^ n :: 'a::floor_ceiling)) xs \<Longrightarrow>
   \<exists>k. sum_list xs = of_int k / 10 ^ n"
proof (induction xs)
  case Nil
  show ?case by (rule exI[of _ 0]) simp
next
  case (Cons x xs)
  then obtain k where k: "x = of_int k / 10 ^ n" by auto
  from Cons obtain m where m: "sum_list xs = of_int m / 10 ^ n" by auto
  show ?case
    by (rule exI[of _ "k + m"]) (simp add: k m add_divide_distrib)
qed

lemma math_round_sum_rounded:
  "math_round (\<Sum>x\<leftarrow>xs. math_round (f x) n) n = (\<Sum>x\<leftarrow>xs. math_round (f x :: 'a::floor_ceiling) n)"
proof -
  have "list_all (\<lambda>x. \<exists>k. x = (of_int k / 10 ^ n :: 'a)) (map (\<lambda>x. math_round (f x) n) xs)"
    by (simp add: list_all_iff math_round_is_decimal)
  from sum_list_decimal[OF this] obtain k where
    "(\<Sum>x\<leftarrow>xs. math_round (f x) n) = of_int k / 10 ^ n" by auto
  then show ?thesis by (simp add: math_round_decimal)
qed

lemma fu_constructed:
  "list_all (constructed dd) tasks \<Longrightarrow>
   map fu tasks =
     map (\<lambda>task. math_round (if period task > 0
                   then rat_of_int (executionTime task) / rat_of_int (period task) else 0) dd) tasks"
  by (induction tasks) (simp_all add: constructed_def)

text \<open>
  Claim C4 (amended).  For every system the parser builds, \<open>getFU\<close> is the sum of the
  tasks' utilizations, each of them \<open>executionTime / period\<close> (0 for a period of 0)
  already rounded to the fixed precision by the constructor, rounded once more; the
  second rounding changes nothing.
\<close>

theorem getFU_sum_of_rounded:
  assumes "parseSystemTasks dd text = Inr tasks"
  shows "getFU dd tasks =
           math_round (\<Sum>task\<leftarrow>tasks.
              math_round (if period task > 0
                then rat_of_int (executionTime task) / rat_of_int (period task) else 0) dd) dd \<and>
         getFU dd tasks =
           (\<Sum>task\<leftarrow>tasks.
              math_round (if period task > 0
                then rat_of_int (executionTime task) / rat_of_int (period task) else 0) dd)"
proof -
  have eq: "map fu tasks =
     map (\<lambda>task. math_round (if period task > 0
                   then rat_of_int (executionTime task) / rat_of_int (period task) else 0) dd) tasks"
    using assms by (intro fu_constructed parseSystemTasks_constructed)
  show ?thesis
    unfolding getFU_def eq by (simp only: math_round_sum_rounded)
qed

lemma thirds_parse: "parseSystemTasks 2 ''(1,3,3),(1,3,3),(1,3,3)'' = Inr thirdsSystem"
  by (simp add: parse_eval thirdsSystem_def math_round_two_decimals)

text \<open>
  Claim C4 as stated fails: three tasks \<open>(1,3,3)\<close> at two decimals have the total
  utilization 0.99, while the exact sum of the three quotients, rounded, is 1.
\<close>

theorem getFU_not_rounded_exact_sum:
  "parseSystemTasks 2 ''(1,3,3),(1,3,3),(1,3,3)'' = Inr thirdsSystem \<and>
   getFU 2 thirdsSystem = 99 / 100 \<and>
   math_round (\<Sum>task\<leftarrow>thirdsSystem.
      if period task > 0 then rat_of_int (executionTime task) / rat_of_int (period task) else 0) 2 = 1"
proof (intro conjI)
  show "parseSystemTasks 2 ''(1,3,3),(1,3,3),(1,3,3)'' = Inr thirdsSystem"
    by (rule thirds_parse)
  show "getFU 2 thirdsSystem = 99 / 100"
    by code_simp
  show "math_round (\<Sum>task\<leftarrow>thirdsSystem.
      if period task > 0 then rat_of_int (executionTime task) / rat_of_int (period task) else 0) 2 = 1"
    by code_simp
qed

text \<open>The theorem for claim C4 at the same system.\<close>

theorem getFU_sum_of_rounded_witness:
  "parseSystemTasks 2 ''(1,3,3),(1,3,3),(1,3,3)'' = Inr thirdsSystem \<and>
   getFU 2 thirdsSystem =
     (\<Sum>task\<leftarrow>thirdsSystem.
        math_round (if period task > 0
          then rat_of_int (executionTime task) / rat_of_int (period task) else 0) 2) \<and>
   getFU 2 thirdsSystem = 99 / 100"
proof -
  have "getFU 2 thirdsSystem = 99 / 100" by code_simp
  then show ?thesis using getFU_sum_of_rounded[OF thirds_parse] thirds_parse by simp
qed

lemma math_round_coarser:
  assumes "m \<le> n"
  shows "math_round (of_int k / 10 ^ m :: 'a::floor_ceiling) n = of_int k / 10 ^ m"
proof -
  have "(10::'a) ^ n = 10 ^ m * 10 ^ (n - m)"
    using assms by (simp flip: power_add)
  then have "(of_int k / 10 ^ m :: 'a) = of_int (k * 10 ^ (n - m)) / 10 ^ n"
    by simp
  then show ?thesis by (simp only: math_round_decimal)
qed

lemma ten_power_mod_three: "\<exists>k::int. 10 ^ n = 3 * k + 1"
proof (induction n)
  case 0
  show ?case by (rule exI[of _ 0]) simp
next
  case (Suc n)
  then obtain k :: int where k: "10 ^ n = 3 * k + 1" by blast
  show ?case by (rule exI[of _ "10 * k + 3"]) (simp add: k)
qed

lemma math_round_third: "3 * math_round (1 / 3 :: rat) n = 1 - 1 / 10 ^ n"
proof -
  obtain k :: int where k: "10 ^ n = 3 * k + 1" using ten_power_mod_three by blast
  then have kr: "(10::rat) ^ n = 3 * of_int k + 1"
    by (metis of_int_1 of_int_add of_int_mult of_int_numeral of_int_power)
  have "\<lfloor>(1 / 3 :: rat) * 10 ^ n + 1 / 2\<rfloor> = k"
    unfolding kr by (rule floor_unique) (simp_all add: field_simps)
  then have "math_round (1 / 3 :: rat) n = of_int k / 10 ^ n" by (simp add: math_round_def)
  then have "3 * math_round (1 / 3 :: rat) n = (3 * of_int k) / 10 ^ n" by simp
  also have "3 * rat_of_int k = 10 ^ n - 1" using kr by simp
  also have "((10::rat) ^ n - 1) / 10 ^ n = 1 - 1 / 10 ^ n" by (simp add: field_simps)
  finally show ?thesis .
qed

lemma parse_thirds:
  "parseSystemTasks dd ''(1,3,3),(1,3,3),(1,3,3)'' =
     Inr [new_RTTask dd 1 ''1'' ''3'' ''3'', new_RTTask dd 2 ''1'' ''3'' ''3'',
          new_RTTask dd 3 ''1'' ''3'' ''3'']"
  by (simp add: parseSystemTasks_def parseTask_def match_here_def digits_then_def is_digit_def
      numeral_2_eq_2 numeral_3_eq_3)

text \<open>The gap of claim C4 does not depend on the number of decimals.\<close>

lemma getFU_thirds_every_precision:
  "\<exists>tasks. parseSystemTasks dd ''(1,3,3),(1,3,3),(1,3,3)'' = Inr tasks \<and>
     getFU dd tasks = 1 - 1 / 10 ^ dd \<and>
     math_round (\<Sum>task\<leftarrow>tasks.
        if period task > 0 then rat_of_int (executionTime task) / rat_of_int (period task) else 0) dd = 1"
proof -
  define tasks where "tasks = [new_RTTask dd 1 ''1'' ''3'' ''3'', new_RTTask dd 2 ''1'' ''3'' ''3'',
          new_RTTask dd 3 ''1'' ''3'' ''3'']"
  have pf: "parseFloat ''1'' = 1" "parseFloat ''3'' = 3"
    by (simp_all add: parseFloat_def digit_val_def)
  have "sum_list (map fu tasks) = 3 * math_round (1 / 3 :: rat) dd"
    by (simp add: tasks_def new_RTTask_fu pf)
  also have "\<dots> = 1 - 1 / 10 ^ dd" by (rule math_round_third)
  also have "\<dots> = of_int (10 ^ dd - 1) / 10 ^ dd" by (simp add: field_simps)
  finally have s: "sum_list (map fu tasks) = of_int (10 ^ dd - 1) / 10 ^ dd" .
  have "getFU dd tasks = of_int (10 ^ dd - 1) / 10 ^ dd"
    unfolding getFU_def s by (rule math_round_decimal)
  then have a: "getFU dd tasks = 1 - 1 / 10 ^ dd" by (simp add: field_simps)
  have "(\<Sum>task\<leftarrow>tasks.
        if period task > 0 then rat_of_int (executionTime task) / rat_of_int (period task) else 0) = 1"
    by (simp add: tasks_def new_RTTask_fields pf)
  then have b: "math_round (\<Sum>task\<leftarrow>tasks.
        if period task > 0 then rat_of_int (executionTime task) / rat_of_int (period task) else 0) dd = 1"
    using math_round_of_int[of 1 dd, where 'a = rat] by simp
  show ?thesis using parse_thirds a b unfolding tasks_def by blast
qed

section \<open>The Liu and Layland test\<close>

lemma math_round_near:
  fixes x :: real
  shows "x - 1 / (2 * 10 ^ n) < math_round x n \<and> math_round x n \<le> x + 1 / (2 * 10 ^ n)"
proof -
  define y where "y = x * 10 ^ n + 1 / 2"
  have p: "(0::real) < 10 ^ n" by simp
  have 1: "of_int \<lfloor>y\<rfloor> \<le> y" and 2: "y < of_int \<lfloor>y\<rfloor> + 1" by linarith+
  have "math_round x n = of_int \<lfloor>y\<rfloor> / 10 ^ n" by (simp add: math_round_def y_def)
  moreover have "of_int \<lfloor>y\<rfloor> / 10 ^ n \<le> y / 10 ^ n"
    using 1 p by (simp add: divide_right_mono)
  moreover have "(y - 1) / 10 ^ n < of_int \<lfloor>y\<rfloor> / 10 ^ n"
    using 2 p by (simp add: divide_strict_right_mono)
  moreover have "y / 10 ^ n = x + 1 / (2 * 10 ^ n)"
    using p by (simp add: y_def field_simps)
  moreover have "(y - 1) / 10 ^ n = x - 1 / (2 * 10 ^ n)"
    using p by (simp add: y_def field_simps)
  ultimately show ?thesis by simp
qed

text \<open>
  Claim C5 (amended).  For a system with at least one task, \<open>isValidForLiu\<close> is true
  exactly when the total utilization is at most the Liu and Layland bound rounded to two
  decimals.  The rounded bound lies within 0.005 of the exact one, so the test holds when
  the utilization is at most the exact bound minus 0.005 and fails when it exceeds the
  exact bound by more than 0.005.
\<close>

theorem isValidForLiu_rounded_bound:
  assumes "tasks \<noteq> []"
  shows "(isValidForLiu dd tasks \<longleftrightarrow>
            real_of_rat (getFU dd tasks) \<le> math_round (liuBound (length tasks)) 2) \<and>
         (real_of_rat (getFU dd tasks) \<le> liuBound (length tasks) - 1 / 200 \<longrightarrow>
            isValidForLiu dd tasks) \<and>
         (isValidForLiu dd tasks \<longrightarrow>
            real_of_rat (getFU dd tasks) \<le> liuBound (length tasks) + 1 / 200)"
proof -
  have eq: "isValidForLiu dd tasks \<longleftrightarrow>
            real_of_rat (getFU dd tasks) \<le> math_round (liuBound (length tasks)) 2"
    using assms by (simp add: isValidForLiu_def getLiu_def getN_def liuBound_def Let_def)
  have near: "liuBound (length tasks) - 1 / 200 < math_round (liuBound (length tasks)) 2 \<and>
        math_round (liuBound (length tasks)) 2 \<le> liuBound (length tasks) + 1 / 200"
    using math_round_near[of "liuBound (length tasks)" 2] by simp
  show ?thesis using eq near by auto
qed

lemma liu_parse: "parseSystemTasks 2 ''(1,2,2),(33,100,100)'' = Inr liuSystem"
  by (simp add: parse_eval liuSystem_def math_round_two_decimals)

lemma liu_fu: "getFU 2 liuSystem = 83 / 100"
  by code_simp

lemma sqrt2_bounds: "1413 / 1000 < sqrt 2" "sqrt 2 < 1415 / 1000"
proof -
  show "1413 / 1000 < sqrt 2"
    by (rule real_less_rsqrt) (simp add: power2_eq_square)
  show "sqrt 2 < 1415 / 1000"
    by (rule real_less_lsqrt) (simp_all add: power2_eq_square)
qed

lemma liuBound_2: "liuBound 2 = 2 * (sqrt 2 - 1)"
  by (simp add: liuBound_def powr_half_sqrt)

lemma liu_round: "math_round (liuBound 2) 2 = 83 / 100"
proof -
  have "\<lfloor>liuBound 2 * 10 ^ 2 + 1 / 2\<rfloor> = 83"
    unfolding liuBound_2 using sqrt2_bounds by (intro floor_unique) simp_all
  then show ?thesis by (simp add: math_round_def)
qed

lemma liu_getLiu: "getLiu liuSystem = 83 / 100"
proof -
  have "getLiu liuSystem = math_round (liuBound 2) 2"
    by (simp add: getLiu_def getN_def liuSystem_def liuBound_def Let_def)
  then show ?thesis by (simp only: liu_round)
qed

lemma liu_valid: "isValidForLiu 2 liuSystem"
proof -
  have "getN liuSystem \<noteq> 0" by (simp add: getN_def liuSystem_def)
  moreover have "real_of_rat (getFU 2 liuSystem) \<le> getLiu liuSystem"
    unfolding liu_fu liu_getLiu by (simp add: of_rat_divide)
  ultimately show ?thesis by (simp add: isValidForLiu_def)
qed

text \<open>
  Claim C5 as stated fails: for \<open>(1,2,2),(33,100,100)\<close> at two decimals the total
  utilization is 0.83, above the exact bound \<open>2 * (sqrt 2 - 1)\<close> of about 0.8284, and
  \<open>isValidForLiu\<close> is true, because the bound it compares with is rounded to 0.83.
\<close>

theorem isValidForLiu_above_exact_bound:
  "parseSystemTasks 2 ''(1,2,2),(33,100,100)'' = Inr liuSystem \<and>
   isValidForLiu 2 liuSystem \<and>
   \<not> real_of_rat (getFU 2 liuSystem)
       \<le> real (length liuSystem) * (2 powr (1 / real (length liuSystem)) - 1)"
proof (intro conjI)
  show "parseSystemTasks 2 ''(1,2,2),(33,100,100)'' = Inr liuSystem" by (rule liu_parse)
  have len: "length liuSystem = 2" by (simp add: liuSystem_def)
  have b: "real (length liuSystem) * (2 powr (1 / real (length liuSystem)) - 1) = liuBound 2"
    by (simp add: len liuBound_def)
  show "isValidForLiu 2 liuSystem" by (rule liu_valid)
  show "\<not> real_of_rat (getFU 2 liuSystem)
       \<le> real (length liuSystem) * (2 powr (1 / real (length liuSystem)) - 1)"
    unfolding b liuBound_2 liu_fu using sqrt2_bounds by (simp add: of_rat_divide)
qed

text \<open>
  The theorem for claim C5 at the one-task system \<open>(1,2,2)\<close>, whose utilization 0.5 lies
  below the bound 1 by more than 0.005.
\<close>

theorem isValidForLiu_rounded_bound_witness:
  "halfSystem \<noteq> [] \<and>
   real_of_rat (getFU 2 halfSystem) \<le> liuBound (length halfSystem) - 1 / 200 \<and>
   isValidForLiu 2 halfSystem \<and>
   real_of_rat (getFU 2 halfSystem) \<le> math_round (liuBound (length halfSystem)) 2 \<and>
   real_of_rat (getFU 2 halfSystem) \<le> liuBound (length halfSystem) + 1 / 200"
proof -
  have ne: "halfSystem \<noteq> []" by (simp add: halfSystem_def)
  have fu: "getFU 2 halfSystem = 1 / 2" by code_simp
  have b: "liuBound (length halfSystem) = 1" by (simp add: halfSystem_def liuBound_def)
  have low: "real_of_rat (getFU 2 halfSystem) \<le> liuBound (length halfSystem) - 1 / 200"
    unfolding fu b by (simp add: of_rat_divide)
  from isValidForLiu_rounded_bound[OF ne, of 2] low show ?thesis using ne by blast
qed

lemma parse_liu:
  "parseSystemTasks dd ''(1,2,2),(33,100,100)'' =
     Inr [new_RTTask dd 1 ''1'' ''2'' ''2'', new_RTTask dd 2 ''33'' ''100'' ''100'']"
  by (simp add: parseSystemTasks_def parseTask_def match_here_def digits_then_def is_digit_def
      numeral_2_eq_2)

text \<open>The gap of claim C5 is there for every number of decimals from two on.\<close>

lemma isValidForLiu_every_precision:
  assumes "2 \<le> dd"
  shows "\<exists>tasks. parseSystemTasks dd ''(1,2,2),(33,100,100)'' = Inr tasks \<and>
           isValidForLiu dd tasks \<and>
           \<not> real_of_rat (getFU dd tasks) \<le> liuBound (length tasks)"
proof -
  define tasks where
    "tasks = [new_RTTask dd 1 ''1'' ''2'' ''2'', new_RTTask dd 2 ''33'' ''100'' ''100'']"
  have pf: "parseFloat ''1'' = 1" "parseFloat ''2'' = 2" "parseFloat ''33'' = 33"
    "parseFloat ''100'' = 100"
    by (simp_all add: parseFloat_def digit_val_def)
  have h: "math_round (1 / 2 :: rat) dd = 1 / 2"
    using math_round_coarser[of 1 dd 5, where 'a = rat] assms by simp
  have t: "math_round (33 / 100 :: rat) dd = 33 / 100"
    using math_round_coarser[of 2 dd 33, where 'a = rat] assms by simp
  have e: "math_round (83 / 100 :: rat) dd = 83 / 100"
    using math_round_coarser[of 2 dd 83, where 'a = rat] assms by simp
  have sm: "sum_list (map fu tasks) = 83 / 100"
    by (simp add: tasks_def new_RTTask_fu pf h t)
  have fu: "getFU dd tasks = 83 / 100" unfolding getFU_def sm by (rule e)
  have len: "length tasks = 2" by (simp add: tasks_def)
  have "getLiu tasks = math_round (liuBound 2) 2"
    by (simp add: getLiu_def getN_def len liuBound_def Let_def)
  then have liu: "getLiu tasks = 83 / 100" by (simp only: liu_round)
  have v: "isValidForLiu dd tasks"
    by (simp add: isValidForLiu_def getN_def len fu liu of_rat_divide)
  have n: "\<not> real_of_rat (getFU dd tasks) \<le> liuBound (length tasks)"
    unfolding len liuBound_2 fu using sqrt2_bounds by (simp add: of_rat_divide)
  show ?thesis using parse_liu v n unfolding tasks_def by blast
qed

section \<open>Slack: the minimum over the expiration instants\<close>

lemma nextExpirationLoop_returns:
  "0 < p \<Longrightarrow> \<exists>r. nextExpirationLoop result ref p = Some r"
proof (induction "nat (ref - result)" arbitrary: result rule: less_induct)
  case less
  show ?case
  proof (cases "result < ref")
    case True
    then have "nat (ref - (result + p)) < nat (ref - result)" using less.prems by simp
    from less.hyps[OF this less.prems] obtain r where
      "nextExpirationLoop (result + p) ref p = Some r" by auto
    then show ?thesis using True by (subst nextExpirationLoop.simps) simp
  next
    case False
    then show ?thesis by (subst nextExpirationLoop.simps) simp
  qed
qed

lemma slackExpirationsLoop_returns:
  "list_all (\<lambda>t. 0 < period t) tasks \<Longrightarrow>
   \<exists>rs. slackExpirationsLoop tasks lowerLimit nextExpiration results = Some rs"
proof (induction tasks arbitrary: results)
  case Nil
  show ?case by simp
next
  case (Cons t tasks)
  then obtain e where "getNextExpiration lowerLimit (period t) = Some e"
    using nextExpirationLoop_returns[of "period t" "period t" lowerLimit]
    by (auto simp: getNextExpiration_def)
  then show ?case using Cons by simp
qed

lemma getTaskProportion_ceiling:
  "getTaskProportion task e ceilingType =
     (if period task > 0
      then rat_of_int (ceil_quot e (period task) * executionTime task) else 0)"
  by (simp add: getTaskProportion_def selectMathFunction_def applyMathFunction_def ceil_quot_def)

lemma partialSlacksLoop_Inr:
  "partialSlacksLoop tasks k T F exps = Inr slacks \<Longrightarrow>
   slacks = map (\<lambda>e. rat_of_int T - rat_of_int F -
                  (\<Sum>task \<leftarrow> take (k + 1) tasks. getTaskProportion task e ceilingType)) exps
   \<and> (exps = [] \<or> k < length tasks)"
proof (induction exps arbitrary: slacks)
  case Nil
  then show ?case by simp
next
  case (Cons e exps)
  then show ?case
    by (auto simp: partialSum_def split: sum.splits if_splits)
qed

lemma math_min_Inr:
  assumes "math_min xs = Inr m"
  shows "xs \<noteq> [] \<and> m = Min (set xs)"
proof (cases xs)
  case Nil
  then show ?thesis using assms by (simp add: math_min_def)
next
  case (Cons a list)
  have "Min (set (a # list)) = fold min list a" by (rule Min.set_eq_fold)
  then show ?thesis using Cons assms by (auto simp: math_min_def)
qed

lemma demand_sum:
  "(\<Sum>task \<leftarrow> take (Suc k) tasks. getTaskProportion task e ceilingType) =
   rat_of_int (demand tasks k e)"
proof -
  have "(\<Sum>task \<leftarrow> xs. getTaskProportion task e ceilingType) =
        rat_of_int (\<Sum>task \<leftarrow> xs.
          if period task > 0 then ceil_quot e (period task) * executionTime task else 0)" for xs
    by (induction xs) (simp_all add: getTaskProportion_ceiling)
  then show ?thesis by (simp add: demand_def)
qed

text \<open>
  Claim C8 (amended).  \<open>calculateTaskSlack\<close> returns for every system whose periods
  are positive (a value or an error).  When it returns a value, there is at least one
  candidate expiration instant, and the value is the minimum over the candidates of
  \<open>period - F - demand\<close> with \<open>F = 0\<close>, where a minimum of exactly \<open>-1\<close> is
  replaced by 0.  Hence the reported slack is never \<open>-1\<close>; any other negative minimum
  is reported as it is.
\<close>

theorem calculateTaskSlack_minimum:
  "(list_all (\<lambda>t. 0 < period t) tasks \<longrightarrow>
      calculateTaskSlack tasks task responseTime taskIndex \<noteq> None) \<and>
   (\<forall>slack. calculateTaskSlack tasks task responseTime taskIndex = Some (Inr slack) \<longrightarrow>
      (\<exists>exps raw.
         getSlackExpirations tasks (period task) responseTime (executionTime task) = Some exps \<and>
         exps \<noteq> [] \<and> taskIndex < length tasks \<and>
         raw = Min ((\<lambda>e. period task - 0 - demand tasks taskIndex e) ` set exps) \<and>
         slack = (if raw = - 1 then 0 else rat_of_int raw) \<and>
         slack \<noteq> - 1))"
proof (intro conjI impI allI)
  assume "list_all (\<lambda>t. 0 < period t) tasks"
  from slackExpirationsLoop_returns[OF this] obtain rs where
    "getSlackExpirations tasks (period task) responseTime (executionTime task) = Some rs"
    unfolding getSlackExpirations_def Let_def by blast
  then show "calculateTaskSlack tasks task responseTime taskIndex \<noteq> None"
    by (simp add: calculateTaskSlack_def Let_def split: sum.splits)
next
  fix slack
  assume a: "calculateTaskSlack tasks task responseTime taskIndex = Some (Inr slack)"
  define F where "F = (if responseTime \<le> period task then 0 else calculateF task)"
  have F0: "F = 0" by (simp add: F_def calculateF_def)
  from a obtain exps where
    exps: "getSlackExpirations tasks (period task) responseTime (executionTime task) = Some exps"
    by (auto simp: calculateTaskSlack_def Let_def split: option.splits)
  from a exps obtain slacks where
    sl: "partialSlacksLoop tasks taskIndex (period task) F exps = Inr slacks"
    by (auto simp: calculateTaskSlack_def Let_def F_def split: sum.splits)
  from a exps sl obtain m where
    m: "math_min slacks = Inr m" and res: "slack = (if m = - 1 then 0 else m)"
    by (auto simp: calculateTaskSlack_def Let_def F_def split: sum.splits)
  from partialSlacksLoop_Inr[OF sl] have
    slacks: "slacks = map (\<lambda>e. rat_of_int (period task - 0 - demand tasks taskIndex e)) exps"
    and idx: "exps = [] \<or> taskIndex < length tasks"
    by (simp_all add: demand_sum F0)
  from math_min_Inr[OF m] have ne: "slacks \<noteq> []" and mm: "m = Min (set slacks)" by simp_all
  have ene: "exps \<noteq> []" using ne slacks by auto
  define g where "g = (\<lambda>e. period task - 0 - demand tasks taskIndex e)"
  have "set slacks = rat_of_int ` (g ` set exps)" by (simp add: slacks g_def image_image)
  moreover have "Min (rat_of_int ` (g ` set exps)) = rat_of_int (Min (g ` set exps))"
    using ene by (intro mono_Min_commute[symmetric]) (auto simp: mono_def)
  ultimately have mi: "m = rat_of_int (Min (g ` set exps))" using mm by simp
  have "slack = (if Min (g ` set exps) = - 1 then 0 else rat_of_int (Min (g ` set exps)))"
    unfolding res mi by (metis of_int_1 of_int_eq_iff of_int_minus)
  moreover from this have "slack \<noteq> - 1"
    by (metis of_int_1 of_int_eq_iff of_int_minus zero_neq_neg_one)
  ultimately show "\<exists>exps raw.
         getSlackExpirations tasks (period task) responseTime (executionTime task) = Some exps \<and>
         exps \<noteq> [] \<and> taskIndex < length tasks \<and>
         raw = Min ((\<lambda>e. period task - 0 - demand tasks taskIndex e) ` set exps) \<and>
         slack = (if raw = - 1 then 0 else rat_of_int raw) \<and>
         slack \<noteq> - 1"
    using exps ene idx unfolding g_def by blast
qed

text \<open>
  Claim C8 as stated fails: for the one-task system \<open>(7,5,5)\<close>, with the response
  time 7 that \<open>getTaskResponse\<close> computes for it, the reported slack is \<open>-2\<close>.
\<close>

theorem calculateTaskSlack_negative:
  "parseSystemTasks 2 ''(7,5,5)'' = Inr sevenSystem \<and>
   getTaskResponse sevenSystem (sevenSystem ! 0) 0 0 = 7 \<and>
   calculateTaskSlack sevenSystem (sevenSystem ! 0) 7 0 = Some (Inr (- 2))"
proof (intro conjI)
  show "parseSystemTasks 2 ''(7,5,5)'' = Inr sevenSystem"
    by (simp add: parse_eval sevenSystem_def math_round_def floor_eq_iff)
  show "getTaskResponse sevenSystem (sevenSystem ! 0) 0 0 = 7" by code_simp
  show "calculateTaskSlack sevenSystem (sevenSystem ! 0) 7 0 = Some (Inr (- 2))" by code_simp
qed

text \<open>
  The theorem for claim C8 at the second task of \<open>(3,5,5),(3,5,5)\<close>, whose minimum is
  \<open>-1\<close> and whose reported slack is 0.
\<close>

theorem calculateTaskSlack_minimum_witness:
  "list_all (\<lambda>t. 0 < period t) normSystem \<and>
   getTaskTiming normSystem = [3, 9] \<and>
   calculateTaskSlack normSystem (normSystem ! 1) 9 1 = Some (Inr 0) \<and>
   (\<exists>exps raw.
      getSlackExpirations normSystem (period (normSystem ! 1)) 9
        (executionTime (normSystem ! 1)) = Some exps \<and>
      exps \<noteq> [] \<and> 1 < length normSystem \<and>
      raw = Min ((\<lambda>e. period (normSystem ! 1) - 0 - demand normSystem 1 e) ` set exps) \<and>
      (0 :: rat) = (if raw = - 1 then 0 else rat_of_int raw) \<and>
      (0 :: rat) \<noteq> - 1)"
proof -
  have pos: "list_all (\<lambda>t. 0 < period t) normSystem" by (simp add: normSystem_def)
  have tm: "getTaskTiming normSystem = [3, 9]" by code_simp
  have v: "calculateTaskSlack normSystem (normSystem ! 1) 9 1 = Some (Inr 0)" by code_simp
  from calculateTaskSlack_minimum[of normSystem "normSystem ! 1" 9 1] v
  have "\<exists>exps raw.
      getSlackExpirations normSystem (period (normSystem ! 1)) 9
        (executionTime (normSystem ! 1)) = Some exps \<and>
      exps \<noteq> [] \<and> 1 < length normSystem \<and>
      raw = Min ((\<lambda>e. period (normSystem ! 1) - 0 - demand normSystem 1 e) ` set exps) \<and>
      (0 :: rat) = (if raw = - 1 then 0 else rat_of_int raw) \<and>
      (0 :: rat) \<noteq> - 1"
    by blast
  then show ?thesis using pos tm v by blast
qed

section \<open>The first free slot: fixed point and seed\<close>

lemma firstFreeSlotLoop_result:
  assumes "firstFreeSlotLoop tasks x = Some m"
  shows "firstFreeSlotStep tasks m = m \<and>
         (\<exists>n. m = (firstFreeSlotStep tasks ^^ n) x \<and>
              (\<forall>k<n. (firstFreeSlotStep tasks ^^ Suc k) x \<noteq> (firstFreeSlotStep tasks ^^ k) x))"
  using assms
proof (induction tasks x m rule: firstFreeSlotLoop.raw_induct[rotated 1, consumes 1])
  case (1 loop tasks x m)
  show ?case
  proof (cases "x = firstFreeSlotStep tasks x")
    case True
    with "1.hyps" have "m = x" by (simp add: Let_def)
    with True have "firstFreeSlotStep tasks m = m" by simp
    moreover have "m = (firstFreeSlotStep tasks ^^ 0) x \<and>
              (\<forall>k<0. (firstFreeSlotStep tasks ^^ Suc k) x \<noteq> (firstFreeSlotStep tasks ^^ k) x)"
      using \<open>m = x\<close> by simp
    ultimately show ?thesis by blast
  next
    case False
    with "1.hyps" have "loop tasks (firstFreeSlotStep tasks x) = Some m" by (simp add: Let_def)
    from "1.IH"[OF this] obtain n where
      fp: "firstFreeSlotStep tasks m = m" and
      n: "m = (firstFreeSlotStep tasks ^^ n) (firstFreeSlotStep tasks x)" and
      first: "\<forall>k<n. (firstFreeSlotStep tasks ^^ Suc k) (firstFreeSlotStep tasks x)
                  \<noteq> (firstFreeSlotStep tasks ^^ k) (firstFreeSlotStep tasks x)"
      by blast
    have "m = (firstFreeSlotStep tasks ^^ Suc n) x"
      using n by (simp add: funpow_swap1)
    moreover have "\<forall>k<Suc n. (firstFreeSlotStep tasks ^^ Suc k) x \<noteq> (firstFreeSlotStep tasks ^^ k) x"
    proof (intro allI impI)
      fix k assume "k < Suc n"
      show "(firstFreeSlotStep tasks ^^ Suc k) x \<noteq> (firstFreeSlotStep tasks ^^ k) x"
      proof (cases k)
        case 0
        then show ?thesis using False by simp
      next
        case (Suc j)
        then have "j < n" using \<open>k < Suc n\<close> by simp
        with first have "(firstFreeSlotStep tasks ^^ Suc j) (firstFreeSlotStep tasks x)
                  \<noteq> (firstFreeSlotStep tasks ^^ j) (firstFreeSlotStep tasks x)" by blast
        then show ?thesis unfolding Suc by (simp add: funpow_swap1)
      qed
    qed
    ultimately show ?thesis using fp by blast
  qed
qed

lemma ceil_quot_mono: "0 < T \<Longrightarrow> a \<le> b \<Longrightarrow> ceil_quot a T \<le> ceil_quot b T"
  unfolding ceil_quot_def by (intro ceiling_mono divide_right_mono) simp_all

lemma ceil_quot_pos: "0 < T \<Longrightarrow> 0 < a \<Longrightarrow> 1 \<le> ceil_quot a T"
  unfolding ceil_quot_def by (simp add: ceiling_less_iff less_imp_le)

lemma ceil_quot_zero: "ceil_quot 0 T = 0"
  by (simp add: ceil_quot_def)

lemma ceil_quot_nonneg: "0 < T \<Longrightarrow> 0 \<le> a \<Longrightarrow> 0 \<le> ceil_quot a T"
  using ceil_quot_mono[of T 0 a] by (simp add: ceil_quot_zero)

lemma demand_mono:
  "list_all (\<lambda>t. 0 < period t \<and> 0 \<le> executionTime t) ts \<Longrightarrow> a \<le> b \<Longrightarrow>
   (\<Sum>t\<leftarrow>ts. ceil_quot a (period t) * executionTime t) \<le>
   (\<Sum>t\<leftarrow>ts. ceil_quot b (period t) * executionTime t)"
  by (induction ts) (auto intro!: add_mono mult_right_mono ceil_quot_mono)

lemma demand_nonneg:
  "list_all (\<lambda>t. 0 < period t \<and> 0 \<le> executionTime t) ts \<Longrightarrow> 0 \<le> a \<Longrightarrow>
   0 \<le> (\<Sum>t\<leftarrow>ts. ceil_quot a (period t) * executionTime t)"
  by (induction ts) (auto intro!: add_nonneg_nonneg mult_nonneg_nonneg ceil_quot_nonneg)

lemma firstFreeSlotStep_mono:
  "wellFormed tasks \<Longrightarrow> a \<le> b \<Longrightarrow> firstFreeSlotStep tasks a \<le> firstFreeSlotStep tasks b"
  by (simp add: firstFreeSlotStep_def wellFormed_def demand_mono)

lemma firstFreeSlotStep_pos:
  "wellFormed tasks \<Longrightarrow> 0 \<le> a \<Longrightarrow> 1 \<le> firstFreeSlotStep tasks a"
  using demand_nonneg[of tasks a] by (simp add: firstFreeSlotStep_def wellFormed_def)

lemma firstFreeSlotLoop_ascending:
  assumes wf: "wellFormed tasks" and b: "firstFreeSlotStep tasks b \<le> b"
  shows "x \<le> firstFreeSlotStep tasks x \<Longrightarrow> x \<le> b \<Longrightarrow> \<exists>m. firstFreeSlotLoop tasks x = Some m"
proof (induction "nat (b - x)" arbitrary: x rule: less_induct)
  case less
  show ?case
  proof (cases "x = firstFreeSlotStep tasks x")
    case True
    then show ?thesis by (subst firstFreeSlotLoop.simps) (simp add: Let_def)
  next
    case False
    define x' where "x' = firstFreeSlotStep tasks x"
    have lt: "x < x'" using False less.prems(1) by (simp add: x'_def)
    have "x' \<le> firstFreeSlotStep tasks b"
      unfolding x'_def by (rule firstFreeSlotStep_mono[OF wf less.prems(2)])
    with b have xb: "x' \<le> b" by simp
    have asc: "x' \<le> firstFreeSlotStep tasks x'"
      unfolding x'_def using firstFreeSlotStep_mono[OF wf less.prems(1)] .
    have "nat (b - x') < nat (b - x)" using lt xb by simp
    from less.hyps[OF this asc xb] obtain m where "firstFreeSlotLoop tasks x' = Some m" by blast
    then show ?thesis using False by (subst firstFreeSlotLoop.simps) (simp add: Let_def x'_def)
  qed
qed

lemma firstFreeSlotLoop_descending:
  assumes wf: "wellFormed tasks"
  shows "firstFreeSlotStep tasks x \<le> x \<Longrightarrow> 0 \<le> x \<Longrightarrow> \<exists>m. firstFreeSlotLoop tasks x = Some m"
proof (induction "nat x" arbitrary: x rule: less_induct)
  case less
  show ?case
  proof (cases "x = firstFreeSlotStep tasks x")
    case True
    then show ?thesis by (subst firstFreeSlotLoop.simps) (simp add: Let_def)
  next
    case False
    define x' where "x' = firstFreeSlotStep tasks x"
    have lt: "x' < x" using False less.prems(1) by (simp add: x'_def)
    have pos: "1 \<le> x'" unfolding x'_def by (rule firstFreeSlotStep_pos[OF wf less.prems(2)])
    have desc: "firstFreeSlotStep tasks x' \<le> x'"
      unfolding x'_def using firstFreeSlotStep_mono[OF wf less.prems(1)] .
    have "nat x' < nat x" using lt pos by simp
    from less.hyps[OF this desc] pos obtain m where "firstFreeSlotLoop tasks x' = Some m" by auto
    then show ?thesis using False by (subst firstFreeSlotLoop.simps) (simp add: Let_def x'_def)
  qed
qed

lemma firstFreeSlotLoop_returns:
  assumes "wellFormed tasks" and "0 \<le> x" and "x \<le> b" and "firstFreeSlotStep tasks b \<le> b"
  shows "\<exists>m. firstFreeSlotLoop tasks x = Some m"
proof (cases "x \<le> firstFreeSlotStep tasks x")
  case True
  then show ?thesis using assms by (intro firstFreeSlotLoop_ascending)
next
  case False
  then show ?thesis using assms by (intro firstFreeSlotLoop_descending) simp_all
qed

lemma responseStep_mono:
  assumes "wellFormed tasks" and "a \<le> b"
  shows "responseStep tasks task k a \<le> responseStep tasks task k b"
proof -
  have "list_all (\<lambda>t. 0 < period t \<and> 0 \<le> executionTime t) (take k tasks)"
    using assms(1) by (auto simp: wellFormed_def list_all_iff dest: in_set_takeD)
  from demand_mono[OF this assms(2)] show ?thesis by (simp add: responseStep_def)
qed

lemma responseLoop_fixed:
  "responseLoop tasks task k seed c0 = (v, cnt) \<Longrightarrow> cnt < 50 \<Longrightarrow>
   responseStep tasks task k v = v"
proof (induction tasks task k seed c0 rule: responseLoop.induct)
  case (1 tasks task k seed c0)
  define it where "it = responseStep tasks task k seed"
  show ?case
  proof (cases "seed \<noteq> it \<and> c0 + 1 < 50")
    case True
    then have "responseLoop tasks task k it (c0 + 1) = (v, cnt)"
      using "1.prems"(1) by (subst (asm) responseLoop.simps) (simp add: Let_def it_def)
    with "1.IH"[OF refl refl refl] True "1.prems"(2) show ?thesis
      by (simp add: it_def)
  next
    case False
    then have "(it, c0 + 1) = (v, cnt)"
      using "1.prems"(1) by (subst (asm) responseLoop.simps) (auto simp: Let_def it_def)
    with False "1.prems"(2) have "seed = it" "v = it" by auto
    then show ?thesis by (simp add: it_def)
  qed
qed

lemma responseLoop_above:
  "responseLoop tasks task k seed c0 = (v, cnt) \<Longrightarrow>
   seed \<le> responseStep tasks task k seed \<Longrightarrow> wellFormed tasks \<Longrightarrow> seed \<le> v"
proof (induction tasks task k seed c0 rule: responseLoop.induct)
  case (1 tasks task k seed c0)
  define it where "it = responseStep tasks task k seed"
  have le: "seed \<le> it" using "1.prems"(2) by (simp add: it_def)
  show ?case
  proof (cases "seed \<noteq> it \<and> c0 + 1 < 50")
    case True
    then have run: "responseLoop tasks task k it (c0 + 1) = (v, cnt)"
      using "1.prems"(1) by (subst (asm) responseLoop.simps) (simp add: Let_def it_def)
    have "it \<le> responseStep tasks task k it"
      unfolding it_def by (rule responseStep_mono[OF "1.prems"(3) "1.prems"(2)])
    with "1.IH"[OF refl refl refl] True run "1.prems"(3) have "it \<le> v"
      by (simp add: it_def)
    with le show ?thesis by simp
  next
    case False
    then have "(it, c0 + 1) = (v, cnt)"
      using "1.prems"(1) by (subst (asm) responseLoop.simps) (auto simp: Let_def it_def)
    with le show ?thesis by simp
  qed
qed

lemma responseFromSeed_cases:
  assumes "responseFromSeed tasks task k seed \<noteq> - 1"
  obtains v cnt where "responseLoop tasks task k seed 0 = (v, cnt)" and "cnt < 50"
    and "responseFromSeed tasks task k seed = v"
  using assms unfolding responseFromSeed_def
  by (cases "responseLoop tasks task k seed 0") (auto split: if_splits)

lemma timing_chain:
  assumes wf: "wellFormed tasks" and ns: "- 1 \<notin> set (getTaskTiming tasks)"
  shows "i < length tasks \<Longrightarrow>
         0 \<le> getTaskTiming tasks ! i \<and>
         responseStep tasks (tasks ! i) i (getTaskTiming tasks ! i) = getTaskTiming tasks ! i \<and>
         (0 < i \<longrightarrow> getTaskTiming tasks ! (i - 1) \<le> getTaskTiming tasks ! i)"
proof (induction i)
  case 0
  then have ne: "tasks \<noteq> []" by auto
  have "tasks ! 0 \<in> set tasks" using 0 by simp
  then have "0 \<le> executionTime (tasks ! 0)" using wf by (simp add: wellFormed_def list_all_iff)
  then show ?case by (simp add: getTaskTiming_first[OF ne] responseStep_def)
next
  case (Suc j)
  define R where "R = getTaskTiming tasks"
  define task where "task = tasks ! Suc j"
  define r where "r = R ! j"
  define C where "C = executionTime task"
  define s where "s = r + C"
  have j: "j < length tasks" using Suc.prems by simp
  from Suc.IH[OF j] have r0: "0 \<le> r" and rfix: "responseStep tasks (tasks ! j) j r = r"
    by (simp_all add: r_def R_def)
  have wfall: "\<And>t. t \<in> set tasks \<Longrightarrow> 0 < period t \<and> 0 \<le> executionTime t"
    using wf by (simp add: wellFormed_def list_all_iff)
  have C0: "0 \<le> C" using wfall[of task] Suc.prems by (simp add: C_def task_def)
  have Cj: "0 \<le> executionTime (tasks ! j)" and Tj: "0 < period (tasks ! j)"
    using wfall[of "tasks ! j"] j by simp_all
  have s0: "0 \<le> s" and rs: "r \<le> s" using r0 C0 by (simp_all add: s_def)
  have wfj: "list_all (\<lambda>t. 0 < period t \<and> 0 \<le> executionTime t) (take j tasks)"
    using wfall by (auto simp: list_all_iff dest: in_set_takeD)
  define D where "D = (\<lambda>x. \<Sum>t\<leftarrow>take j tasks. ceil_quot x (period t) * executionTime t)"
  have rD: "r = executionTime (tasks ! j) + D r"
    using rfix by (simp add: responseStep_def D_def)
  have Dmono: "D r \<le> D s" unfolding D_def by (rule demand_mono[OF wfj rs])
  have last_term: "executionTime (tasks ! j) \<le> ceil_quot s (period (tasks ! j)) * executionTime (tasks ! j)"
  proof (cases "0 < s")
    case True
    from ceil_quot_pos[OF Tj True] Cj show ?thesis
      using mult_right_mono[of 1 "ceil_quot s (period (tasks ! j))" "executionTime (tasks ! j)"]
      by simp
  next
    case False
    with s0 have "s = 0" by simp
    with r0 C0 have "r = 0" by (simp add: s_def)
    have "D 0 = 0" by (simp add: D_def ceil_quot_zero)
    with rD \<open>r = 0\<close> have "executionTime (tasks ! j) = 0" by simp
    then show ?thesis by simp
  qed
  have step: "responseStep tasks task (Suc j) s =
              C + (D s + ceil_quot s (period (tasks ! j)) * executionTime (tasks ! j))"
    using j by (simp add: responseStep_def C_def D_def take_Suc_conv_app_nth)
  have asc: "s \<le> responseStep tasks task (Suc j) s"
    unfolding step using Dmono last_term rD by (simp add: s_def)
  have Rs: "R ! Suc j = responseFromSeed tasks task (Suc j) s"
    using getTaskTiming_next[of "Suc j" tasks] Suc.prems
    by (simp add: R_def getTaskResponse_def task_def r_def s_def C_def)
  have "R ! Suc j \<in> set R" using Suc.prems by (simp add: R_def getTaskTiming_length)
  with ns have "responseFromSeed tasks task (Suc j) s \<noteq> - 1"
    unfolding Rs[symmetric] R_def by auto
  then obtain v cnt where
    run: "responseLoop tasks task (Suc j) s 0 = (v, cnt)" and cnt: "cnt < 50" and
    v: "responseFromSeed tasks task (Suc j) s = v"
    by (rule responseFromSeed_cases)
  have fixv: "responseStep tasks task (Suc j) v = v" by (rule responseLoop_fixed[OF run cnt])
  have sv: "s \<le> v" by (rule responseLoop_above[OF run asc wf])
  have "R ! Suc j = v" using Rs v by simp
  then show ?case
    using fixv sv s0 rs unfolding R_def[symmetric] task_def[symmetric] by (simp add: r_def)
qed

lemma sorted_last_Max: "sorted xs \<Longrightarrow> xs \<noteq> [] \<Longrightarrow> last xs = Max (set (xs :: int list))"
proof -
  assume s: "sorted xs" and ne: "xs \<noteq> []"
  have "\<forall>x\<in>set xs. x \<le> last xs"
  proof
    fix x assume "x \<in> set xs"
    then obtain i where i: "i < length xs" "xs ! i = x" by (auto simp: in_set_conv_nth)
    then have "xs ! i \<le> xs ! (length xs - 1)" using s by (intro sorted_nth_mono) auto
    then show "x \<le> last xs" using i ne by (simp add: last_conv_nth)
  qed
  then show ?thesis using ne by (intro Max_eqI[symmetric]) auto
qed

lemma timing_last_is_max:
  assumes wf: "wellFormed tasks" and ns: "- 1 \<notin> set (getTaskTiming tasks)" and ne: "tasks \<noteq> []"
  shows "last (getTaskTiming tasks) = Max (set (getTaskTiming tasks))"
    and "0 \<le> last (getTaskTiming tasks)"
proof -
  have len: "length (getTaskTiming tasks) = length tasks" by (rule getTaskTiming_length)
  have "\<forall>i. Suc i < length (getTaskTiming tasks) \<longrightarrow>
          getTaskTiming tasks ! i \<le> getTaskTiming tasks ! Suc i"
  proof (intro allI impI)
    fix i assume "Suc i < length (getTaskTiming tasks)"
    then have "Suc i < length tasks" by (simp add: len)
    from timing_chain[OF wf ns this] show "getTaskTiming tasks ! i \<le> getTaskTiming tasks ! Suc i"
      by simp
  qed
  then have "sorted (getTaskTiming tasks)" by (simp add: sorted_iff_nth_Suc)
  moreover have ne': "getTaskTiming tasks \<noteq> []" using ne len by auto
  ultimately show "last (getTaskTiming tasks) = Max (set (getTaskTiming tasks))"
    by (rule sorted_last_Max)
  have "length tasks - 1 < length tasks" using ne by simp
  from timing_chain[OF wf ns this] show "0 \<le> last (getTaskTiming tasks)"
    using ne' by (simp add: last_conv_nth len)
qed

text \<open>
  Claim C6 (amended).  For a system with at least one task: when \<open>getFirstFreeSlot\<close>
  returns, the value \<open>m\<close> it returns satisfies \<open>m = 1 + sum over all tasks of
  ceil(m / T) * C\<close> (no task is left out of the sum), and it is the first repeated
  value of the iteration started from the seed \<open>1 + the response time of the last
  task\<close>.  On a well-formed system none of whose response times is the sentinel, the
  response times are non-decreasing, so this seed is \<open>1 + max\<close> of the response times.
  On a well-formed system \<open>getFirstFreeSlot\<close> does return when the seed is not negative
  and some value at or above the seed is not exceeded by its own demand plus one.
\<close>

theorem getFirstFreeSlot_fixed_point:
  assumes "tasks \<noteq> []"
  shows "(\<forall>m. getFirstFreeSlot tasks = Some m \<longrightarrow>
            m = 1 + (\<Sum>task\<leftarrow>tasks. ceil_quot m (period task) * executionTime task) \<and>
            (\<exists>n. m = (firstFreeSlotStep tasks ^^ n) (1 + last (getTaskTiming tasks)) \<and>
                 (\<forall>k<n. (firstFreeSlotStep tasks ^^ Suc k) (1 + last (getTaskTiming tasks))
                          \<noteq> (firstFreeSlotStep tasks ^^ k) (1 + last (getTaskTiming tasks))))) \<and>
         (wellFormed tasks \<and> - 1 \<notin> set (getTaskTiming tasks) \<longrightarrow>
            1 + last (getTaskTiming tasks) = 1 + Max (set (getTaskTiming tasks))) \<and>
         (wellFormed tasks \<and> 0 \<le> 1 + last (getTaskTiming tasks) \<and>
          (\<exists>b. 1 + last (getTaskTiming tasks) \<le> b \<and> firstFreeSlotStep tasks b \<le> b) \<longrightarrow>
            (\<exists>m. getFirstFreeSlot tasks = Some m))"
proof (intro conjI allI impI)
  have ne: "getTaskTiming tasks \<noteq> []"
    using assms getTaskTiming_length[of tasks] by auto
  have unfold: "getFirstFreeSlot tasks = firstFreeSlotLoop tasks (1 + last (getTaskTiming tasks))"
    using ne by (simp add: getFirstFreeSlot_def firstFreeSlotSeed_def)
  {
    fix m assume "getFirstFreeSlot tasks = Some m"
    then have run: "firstFreeSlotLoop tasks (1 + last (getTaskTiming tasks)) = Some m"
      by (simp add: unfold)
    from firstFreeSlotLoop_result[OF run]
    show "m = 1 + (\<Sum>task\<leftarrow>tasks. ceil_quot m (period task) * executionTime task)"
      by (simp add: firstFreeSlotStep_def)
    from firstFreeSlotLoop_result[OF run]
    show "\<exists>n. m = (firstFreeSlotStep tasks ^^ n) (1 + last (getTaskTiming tasks)) \<and>
                 (\<forall>k<n. (firstFreeSlotStep tasks ^^ Suc k) (1 + last (getTaskTiming tasks))
                          \<noteq> (firstFreeSlotStep tasks ^^ k) (1 + last (getTaskTiming tasks)))"
      by blast
  }
  {
    assume "wellFormed tasks \<and> - 1 \<notin> set (getTaskTiming tasks)"
    then show "1 + last (getTaskTiming tasks) = 1 + Max (set (getTaskTiming tasks))"
      using timing_last_is_max(1)[of tasks] assms by simp
  }
  {
    assume a: "wellFormed tasks \<and> 0 \<le> 1 + last (getTaskTiming tasks) \<and>
          (\<exists>b. 1 + last (getTaskTiming tasks) \<le> b \<and> firstFreeSlotStep tasks b \<le> b)"
    then obtain b where "1 + last (getTaskTiming tasks) \<le> b" "firstFreeSlotStep tasks b \<le> b"
      by blast
    with a show "\<exists>m. getFirstFreeSlot tasks = Some m"
      unfolding unfold by (intro firstFreeSlotLoop_returns) simp_all
  }
qed

text \<open>
  Claim C6 as stated fails: the seed is one more than the last response time, not one more
  than the largest.  For \<open>(99,100,100),(60,10000,10000)\<close> the second task needs 60
  passes and gets the sentinel, so the seed is 0, while one more than the largest response
  time is 100.
\<close>

theorem firstFreeSlotSeed_not_max:
  "parseSystemTasks 2 ''(99,100,100),(60,10000,10000)'' = Inr slowSystem \<and>
   getTaskTiming slowSystem = [99, - 1] \<and>
   firstFreeSlotSeed slowSystem = 0 \<and>
   1 + Max (set (getTaskTiming slowSystem)) = 100 \<and>
   getFirstFreeSlot slowSystem = Some 6100"
proof -
  have p: "parseSystemTasks 2 ''(99,100,100),(60,10000,10000)'' = Inr slowSystem"
    by (simp add: parse_eval slowSystem_def math_round_def floor_eq_iff)
  have t: "getTaskTiming slowSystem = [99, - 1]" by code_simp
  have s: "firstFreeSlotSeed slowSystem = 0" by (simp add: firstFreeSlotSeed_def t)
  have m: "1 + Max (set (getTaskTiming slowSystem)) = 100" by (simp add: t)
  have f: "getFirstFreeSlot slowSystem = Some 6100" by code_simp
  show ?thesis using p t s m f by simp
qed

text \<open>The theorem for claim C6 at a system of three tasks, where the value is 4.\<close>

theorem getFirstFreeSlot_fixed_point_witness:
  "seedSystem \<noteq> [] \<and> wellFormed seedSystem \<and>
   getTaskTiming seedSystem = [1, 2, 3] \<and> - 1 \<notin> set (getTaskTiming seedSystem) \<and>
   0 \<le> 1 + last (getTaskTiming seedSystem) \<and>
   1 + last (getTaskTiming seedSystem) \<le> 4 \<and> firstFreeSlotStep seedSystem 4 \<le> 4 \<and>
   getFirstFreeSlot seedSystem = Some 4 \<and>
   (4::int) = 1 + (\<Sum>task\<leftarrow>seedSystem. ceil_quot 4 (period task) * executionTime task) \<and>
   (\<exists>n. (4::int) = (firstFreeSlotStep seedSystem ^^ n) (1 + last (getTaskTiming seedSystem))) \<and>
   1 + last (getTaskTiming seedSystem) = 1 + Max (set (getTaskTiming seedSystem)) \<and>
   (\<exists>m. getFirstFreeSlot seedSystem = Some m)"
proof -
  have ne: "seedSystem \<noteq> []" by (simp add: seedSystem_def)
  have wf: "wellFormed seedSystem" by (simp add: seedSystem_def wellFormed_def)
  have t: "getTaskTiming seedSystem = [1, 2, 3]" by code_simp
  have st: "firstFreeSlotStep seedSystem 4 \<le> 4" by code_simp
  have v: "getFirstFreeSlot seedSystem = Some 4" by code_simp
  have ns: "- 1 \<notin> set (getTaskTiming seedSystem)" by (simp add: t)
  have sd: "0 \<le> 1 + last (getTaskTiming seedSystem)" "1 + last (getTaskTiming seedSystem) \<le> 4"
    by (simp_all add: t)
  from getFirstFreeSlot_fixed_point[OF ne] v wf ns have
    "(4::int) = 1 + (\<Sum>task\<leftarrow>seedSystem. ceil_quot 4 (period task) * executionTime task)" and
    "\<exists>n. (4::int) = (firstFreeSlotStep seedSystem ^^ n) (1 + last (getTaskTiming seedSystem))" and
    "1 + last (getTaskTiming seedSystem) = 1 + Max (set (getTaskTiming seedSystem))"
    by blast+
  then show ?thesis using ne wf t st v ns sd by blast
qed

section \<open>The rate-monotonic simulation: the occupancy table\<close>

lemma rmRelease_fields:
  "scheduling (rmRelease t s) = scheduling s"
  "executionOrder (rmRelease t s) = executionOrder s"
  "selectedTask (rmRelease t s) = selectedTask s"
  "currentCell (rmRelease t s) = currentCell s"
  by (simp_all add: rmRelease_def Let_def)

lemma rmRelease_unattended:
  "set (unattendendTasks (rmRelease t s)) \<subseteq> insert (tid t) (set (unattendendTasks s))"
  "set (unattendendTasks s) \<subseteq> set (unattendendTasks (rmRelease t s))"
  by (auto simp: rmRelease_def Let_def)

lemma rmTask_scheduling:
  "scheduling (rmTask t s) = (scheduling s)(tid t := scheduling s (tid t) @ [runs t s])"
  by (auto simp: rmTask_def rmSelect_def runs_def Let_def rmRelease_fields)

lemma rmTask_executionOrder:
  "executionOrder (rmTask t s) = executionOrder s @ (if runs t s then [tid t] else [])"
  by (auto simp: rmTask_def rmSelect_def runs_def Let_def rmRelease_fields)

lemma rmTask_selectedTask:
  "selectedTask (rmTask t s) = (if runs t s then Some t else selectedTask s)"
  by (auto simp: rmTask_def rmSelect_def runs_def Let_def rmRelease_fields)

lemma rmTask_currentCell: "currentCell (rmTask t s) = currentCell s"
  by (auto simp: rmTask_def rmSelect_def Let_def rmRelease_fields)

lemma rmTask_unattended_subset:
  "set (unattendendTasks (rmTask t s)) \<subseteq> insert (tid t) (set (unattendendTasks s))"
  using rmRelease_unattended(1)[of t s]
  by (auto simp: rmTask_def rmSelect_def Let_def)

lemma rmTask_unattended_other:
  "i \<noteq> tid t \<Longrightarrow>
   i \<in> set (unattendendTasks (rmTask t s)) \<longleftrightarrow> i \<in> set (unattendendTasks s)"
  by (auto simp: rmTask_def rmSelect_def rmRelease_def Let_def)

lemma not_runs_not_pending:
  "\<not> runs t s \<Longrightarrow> selectedTask s = None \<Longrightarrow> tid t \<notin> set (unattendendTasks s)"
  using rmRelease_unattended(2)[of s t] by (auto simp: runs_def)

lemma cellInv_step:
  assumes inv: "cellInv n ps (t # rest) s"
    and dist: "distinct (map tid (ps @ t # rest))"
  shows "cellInv n (ps @ [t]) rest (rmTask t s)"
proof -
  define s' where "s' = rmTask t s"
  have "tid t \<notin> tid ` set ps" and "tid t \<notin> tid ` set rest"
    using dist by auto
  then have nps: "\<And>p. p \<in> set ps \<Longrightarrow> tid p \<noteq> tid t"
    and nrest: "\<And>r. r \<in> set rest \<Longrightarrow> tid r \<noteq> tid t"
    by (metis image_eqI)+
  have L: "length (executionOrder s) = n + (if selectedTask s = None then 0 else 1)"
    and Bp: "\<And>p. p \<in> set ps \<Longrightarrow> length (scheduling s (tid p)) = Suc n"
    and Br: "\<And>r. r \<in> set rest \<Longrightarrow> length (scheduling s (tid r)) = n"
    and Bt: "length (scheduling s (tid t)) = n"
    and E1: "\<And>p. selectedTask s = None \<Longrightarrow> p \<in> set ps \<Longrightarrow> \<not> scheduling s (tid p) ! n"
    and E2: "selectedTask s = None \<Longrightarrow> \<exists>r\<in>set (t # rest). tid r \<in> set (unattendendTasks s)"
    and F1: "selectedTask s \<noteq> None \<Longrightarrow> executionOrder s ! n \<in> tid ` set ps"
    and F2: "\<And>p. selectedTask s \<noteq> None \<Longrightarrow> p \<in> set ps \<Longrightarrow>
               scheduling s (tid p) ! n = (executionOrder s ! n = tid p)"
    and G: "set (unattendendTasks s) \<subseteq> tid ` set (ps @ t # rest)"
    using inv unfolding cellInv_def by simp_all
  have hp: "\<And>p. p \<in> set ps \<Longrightarrow> scheduling s' (tid p) = scheduling s (tid p)"
    using nps by (simp add: s'_def rmTask_scheduling)
  have hr: "\<And>r. r \<in> set rest \<Longrightarrow> scheduling s' (tid r) = scheduling s (tid r)"
    using nrest by (simp add: s'_def rmTask_scheduling)
  have ht: "scheduling s' (tid t) = scheduling s (tid t) @ [runs t s]"
    by (simp add: s'_def rmTask_scheduling)
  have htn: "scheduling s' (tid t) ! n = runs t s" and htl: "length (scheduling s' (tid t)) = Suc n"
    using Bt by (simp_all add: ht nth_append)
  have ord: "executionOrder s' = executionOrder s @ (if runs t s then [tid t] else [])"
    by (simp add: s'_def rmTask_executionOrder)
  have sel: "selectedTask s' = (if runs t s then Some t else selectedTask s)"
    by (simp add: s'_def rmTask_selectedTask)
  have sub: "set (unattendendTasks s') \<subseteq> tid ` set ((ps @ [t]) @ rest)"
    using rmTask_unattended_subset[of t s] G by (auto simp: s'_def)
  have c1: "length (executionOrder s') = n + (if selectedTask s' = None then 0 else 1)"
    using L by (auto simp: ord sel runs_def)
  have c2: "\<forall>p\<in>set (ps @ [t]). length (scheduling s' (tid p)) = Suc n"
    using Bp htl hp by auto
  have c3: "\<forall>r\<in>set rest. length (scheduling s' (tid r)) = n"
    using Br hr by auto
  have c4: "selectedTask s' = None \<longrightarrow>
        (\<forall>p\<in>set (ps @ [t]). \<not> scheduling s' (tid p) ! n) \<and>
        (\<exists>r\<in>set rest. tid r \<in> set (unattendendTasks s'))"
  proof
    assume n': "selectedTask s' = None"
    then have nr: "\<not> runs t s" and n0: "selectedTask s = None"
      by (auto simp: sel split: if_splits)
    have npend: "tid t \<notin> set (unattendendTasks s)"
      by (rule not_runs_not_pending[OF nr n0])
    from E2[OF n0] obtain r where r: "r \<in> set (t # rest)" "tid r \<in> set (unattendendTasks s)"
      by blast
    with npend have rr: "r \<in> set rest" by auto
    then have "tid r \<in> set (unattendendTasks s')"
      using r nrest by (simp add: s'_def rmTask_unattended_other)
    with rr have ex: "\<exists>r\<in>set rest. tid r \<in> set (unattendendTasks s')" by blast
    have "\<forall>p\<in>set (ps @ [t]). \<not> scheduling s' (tid p) ! n"
      using E1[OF n0] hp htn nr by auto
    with ex show "(\<forall>p\<in>set (ps @ [t]). \<not> scheduling s' (tid p) ! n) \<and>
        (\<exists>r\<in>set rest. tid r \<in> set (unattendendTasks s'))" by blast
  qed
  have c5: "selectedTask s' \<noteq> None \<longrightarrow>
        executionOrder s' ! n \<in> tid ` set (ps @ [t]) \<and>
        (\<forall>p\<in>set (ps @ [t]). scheduling s' (tid p) ! n = (executionOrder s' ! n = tid p))"
  proof
    assume n': "selectedTask s' \<noteq> None"
    show "executionOrder s' ! n \<in> tid ` set (ps @ [t]) \<and>
        (\<forall>p\<in>set (ps @ [t]). scheduling s' (tid p) ! n = (executionOrder s' ! n = tid p))"
    proof (cases "runs t s")
      case True
      then have n0: "selectedTask s = None" by (simp add: runs_def)
      have on: "executionOrder s' ! n = tid t"
        using L n0 True by (simp add: ord nth_append)
      have "\<forall>p\<in>set ps. scheduling s' (tid p) ! n = (executionOrder s' ! n = tid p)"
      proof
        fix p assume p: "p \<in> set ps"
        then have "\<not> scheduling s' (tid p) ! n" using E1[OF n0 p] hp by simp
        moreover have "tid t \<noteq> tid p" using nps[OF p] by simp
        ultimately show "scheduling s' (tid p) ! n = (executionOrder s' ! n = tid p)"
          by (simp add: on)
      qed
      then show ?thesis using on htn True by auto
    next
      case False
      then have n0: "selectedTask s \<noteq> None" using n' by (simp add: sel)
      have on: "executionOrder s' ! n = executionOrder s ! n"
        using False by (simp add: ord)
      have tn: "executionOrder s ! n \<noteq> tid t"
        using F1[OF n0] \<open>tid t \<notin> tid ` set ps\<close> by auto
      have "\<forall>p\<in>set ps. scheduling s' (tid p) ! n = (executionOrder s' ! n = tid p)"
        using F2[OF n0] hp on by auto
      then show ?thesis using on htn False tn F1[OF n0] by auto
    qed
  qed
  show ?thesis
    unfolding cellInv_def s'_def[symmetric]
    using c1 c2 c3 c4 c5 sub by blast
qed

lemma cellInv_fold:
  "cellInv n ps rest s \<Longrightarrow> distinct (map tid (ps @ rest)) \<Longrightarrow>
   cellInv n (ps @ rest) [] (fold rmTask rest s)"
proof (induction rest arbitrary: ps s)
  case Nil
  then show ?case by simp
next
  case (Cons t rest)
  from cellInv_step[OF Cons.prems] have "cellInv n (ps @ [t]) rest (rmTask t s)" .
  from Cons.IH[OF this] Cons.prems(2) show ?case by simp
qed

lemma fold_rmTask_scheduling_append:
  "\<exists>ys. scheduling (fold rmTask ts s) i = scheduling s i @ ys"
proof (induction ts arbitrary: s)
  case Nil
  show ?case by simp
next
  case (Cons t ts)
  from Cons.IH[of "rmTask t s"] obtain ys where
    "scheduling (fold rmTask ts (rmTask t s)) i = scheduling (rmTask t s) i @ ys" by blast
  then show ?case by (auto simp: rmTask_scheduling)
qed

lemma fold_rmTask_order_append:
  "\<exists>zs. executionOrder (fold rmTask ts s) = executionOrder s @ zs"
proof (induction ts arbitrary: s)
  case Nil
  show ?case by simp
next
  case (Cons t ts)
  from Cons.IH[of "rmTask t s"] obtain zs where
    "executionOrder (fold rmTask ts (rmTask t s)) = executionOrder (rmTask t s) @ zs" by blast
  then show ?case by (auto simp: rmTask_executionOrder)
qed

lemma fold_rmTask_currentCell: "currentCell (fold rmTask ts s) = currentCell s"
  by (induction ts arbitrary: s) (simp_all add: rmTask_currentCell)

lemma tableInv_rmCell:
  assumes inv: "tableInv tasks s"
    and dist: "distinct (map tid tasks)"
    and pend: "unattendendTasks s \<noteq> []"
  shows "tableInv tasks (rmCell tasks s)"
proof -
  define n where "n = length (executionOrder s)"
  define s0 where "s0 = s\<lparr> selectedTask := None \<rparr>"
  define s1 where "s1 = fold rmTask tasks s0"
  have cur: "currentCell s = int n"
    and rows: "\<And>t. t \<in> set tasks \<Longrightarrow> length (scheduling s (tid t)) = n"
    and old1: "\<And>k. k < n \<Longrightarrow> executionOrder s ! k \<in> tid ` set tasks"
    and old2: "\<And>k t. k < n \<Longrightarrow> t \<in> set tasks \<Longrightarrow>
                 scheduling s (tid t) ! k = (executionOrder s ! k = tid t)"
    and sub: "set (unattendendTasks s) \<subseteq> tid ` set tasks"
    using inv unfolding tableInv_def n_def by simp_all
  from pend obtain i where "i \<in> set (unattendendTasks s)" by (cases "unattendendTasks s") auto
  with sub have ex: "\<exists>t\<in>set tasks. tid t \<in> set (unattendendTasks s)" by auto
  have "cellInv n [] tasks s0"
    unfolding cellInv_def using rows ex sub by (simp add: s0_def n_def)
  from cellInv_fold[OF this] dist have fin: "cellInv n tasks [] s1"
    by (simp add: s1_def)
  then have sel: "selectedTask s1 \<noteq> None" by (auto simp: cellInv_def)
  have len1: "length (executionOrder s1) = Suc n"
    and rows1: "\<And>t. t \<in> set tasks \<Longrightarrow> length (scheduling s1 (tid t)) = Suc n"
    and new1: "executionOrder s1 ! n \<in> tid ` set tasks"
    and new2: "\<And>t. t \<in> set tasks \<Longrightarrow>
                 scheduling s1 (tid t) ! n = (executionOrder s1 ! n = tid t)"
    and sub1: "set (unattendendTasks s1) \<subseteq> tid ` set tasks"
    using fin sel unfolding cellInv_def by simp_all
  obtain zs where zs: "executionOrder s1 = executionOrder s @ zs"
    using fold_rmTask_order_append[of tasks s0] by (auto simp: s1_def s0_def)
  have keep_ord: "\<And>k. k < n \<Longrightarrow> executionOrder s1 ! k = executionOrder s ! k"
    by (simp add: zs nth_append n_def)
  have keep_row: "\<And>k t. k < n \<Longrightarrow> t \<in> set tasks \<Longrightarrow>
                    scheduling s1 (tid t) ! k = scheduling s (tid t) ! k"
  proof -
    fix k t assume k: "k < n" and t: "t \<in> set tasks"
    obtain ys where "scheduling s1 (tid t) = scheduling s (tid t) @ ys"
      using fold_rmTask_scheduling_append[of tasks s0 "tid t"] by (auto simp: s1_def s0_def)
    then show "scheduling s1 (tid t) ! k = scheduling s (tid t) ! k"
      using k rows[OF t] by (simp add: nth_append)
  qed
  have all1: "\<And>k. k < Suc n \<Longrightarrow> executionOrder s1 ! k \<in> tid ` set tasks"
    using old1 new1 keep_ord by (metis less_Suc_eq)
  have all2: "\<And>k t. k < Suc n \<Longrightarrow> t \<in> set tasks \<Longrightarrow>
                scheduling s1 (tid t) ! k = (executionOrder s1 ! k = tid t)"
    using old2 new2 keep_ord keep_row by (metis less_Suc_eq)
  have cur1: "currentCell s1 = int n"
    by (simp add: s1_def fold_rmTask_currentCell s0_def cur)
  have cell: "rmCell tasks s = s1\<lparr> currentCell := currentCell s1 + 1 \<rparr>"
    by (simp add: rmCell_def Let_def s1_def s0_def)
  show ?thesis
    unfolding tableInv_def cell
    using len1 rows1 all1 all2 sub1 cur1 by simp
qed

lemma rmInit_fold_fields:
  "unattendendTasks (fold initCounters ts s) = unattendendTasks s"
  "executionOrder (fold initCounters ts s) = executionOrder s"
  "selectedTask (fold initCounters ts s) = selectedTask s"
  "currentCell (fold initCounters ts s) = currentCell s"
  by (induction ts arbitrary: s) (simp_all add: initCounters_def)

lemma rmInit_fold_scheduling:
  "scheduling (fold initCounters ts s) i = (if i \<in> tid ` set ts then [] else scheduling s i)"
  by (induction ts arbitrary: s) (auto simp: initCounters_def)

lemma rmInit_fold_executionCount:
  "executionCount (fold initCounters ts s) i = (if i \<in> tid ` set ts then 0 else executionCount s i)"
  by (induction ts arbitrary: s) (auto simp: initCounters_def)

lemma rmInit_fold_nextStart:
  "distinct (map tid ts) \<Longrightarrow> t \<in> set ts \<Longrightarrow> nextStart (fold initCounters ts s) (tid t) = period t"
proof (induction ts arbitrary: s)
  case Nil
  then show ?case by simp
next
  case (Cons a ts)
  show ?case
  proof (cases "t \<in> set ts")
    case True
    with Cons show ?thesis by simp
  next
    case False
    then have ta: "t = a" using Cons.prems by simp
    have "tid a \<notin> tid ` set ts" using Cons.prems by simp
    then have k: "nextStart (fold initCounters ts s') (tid a) = nextStart s' (tid a)" for s'
      by (induction ts arbitrary: s') (auto simp: initCounters_def)
    have "nextStart (fold initCounters ts (initCounters a s)) (tid a) =
          nextStart (initCounters a s) (tid a)" by (rule k)
    also have "\<dots> = period a" by (simp add: initCounters_def)
    finally show ?thesis by (simp add: ta)
  qed
qed

lemma tableInv_rmInit: "tableInv tasks (rmInit tasks)"
  by (simp add: tableInv_def rmInit_def rmInit_fold_fields rmInit_fold_scheduling)

lemma rmWhile_invariant_aux:
  "rmWhile tasks s = Some s' \<Longrightarrow> I s \<Longrightarrow>
   (\<forall>x. I x \<and> unattendendTasks x \<noteq> [] \<longrightarrow> I (rmCell tasks x)) \<Longrightarrow>
   I s' \<and> unattendendTasks s' = []"
proof (induction tasks s s' rule: rmWhile.raw_induct[rotated 1, consumes 1])
  case (1 loop tasks s s')
  show ?case
  proof (cases "unattendendTasks s = []")
    case True
    with "1.hyps" have "s' = s" by simp
    with True "1.prems" show ?thesis by simp
  next
    case False
    with "1.hyps" have run: "loop tasks (rmCell tasks s) = Some s'" by simp
    have "I (rmCell tasks s)" using "1.prems" False by blast
    from "1.IH"[OF run this "1.prems"(2)] show ?thesis .
  qed
qed

lemma rmWhile_invariant:
  assumes "rmWhile tasks s = Some s'"
    and "I s"
    and "\<And>x. I x \<Longrightarrow> unattendendTasks x \<noteq> [] \<Longrightarrow> I (rmCell tasks x)"
  shows "I s' \<and> unattendendTasks s' = []"
  using rmWhile_invariant_aux[of tasks s s' I] assms by blast

text \<open>
  Claim C10.  In every run of \<open>getRMScheduling\<close> that returns, on tasks with pairwise
  different ids (the parser assigns 1, 2, ..., lemma \<open>parseSystemTasks_distinct\<close>), every task's occupancy row is as long as the
  number of simulated cells (the final \<open>currentCell\<close>), and so is the execution order;
  at every cell index exactly one task has a true bit, and the entry of the execution
  order at that index is the id of that task.
\<close>

theorem getRMScheduling_table:
  assumes "distinct (map tid tasks)" and "getRMScheduling tasks = Some r"
  shows "\<exists>s. rmWhile tasks (rmInit tasks) = Some s \<and>
              getMapping r = scheduling s \<and> getOrder r = executionOrder s \<and>
              int (length (getOrder r)) = currentCell s \<and>
              (\<forall>t\<in>set tasks. int (length (getMapping r (tid t))) = currentCell s) \<and>
              (\<forall>k<length (getOrder r).
                 (\<exists>!t. t \<in> set tasks \<and> getMapping r (tid t) ! k) \<and>
                 (\<forall>t\<in>set tasks. getMapping r (tid t) ! k = (getOrder r ! k = tid t)))"
proof -
  from assms(2) obtain s where
    run: "rmWhile tasks (rmInit tasks) = Some s" and
    r: "r = \<lparr> isScheludable = True, getMapping = scheduling s, getOrder = executionOrder s \<rparr>"
    by (auto simp: getRMScheduling_def split: option.splits)
  have "tableInv tasks s \<and> unattendendTasks s = []"
    using run tableInv_rmInit
  proof (rule rmWhile_invariant)
    fix x assume "tableInv tasks x" "unattendendTasks x \<noteq> []"
    then show "tableInv tasks (rmCell tasks x)" using assms(1) by (intro tableInv_rmCell)
  qed
  then have cur: "currentCell s = int (length (executionOrder s))"
    and rows: "\<And>t. t \<in> set tasks \<Longrightarrow> length (scheduling s (tid t)) = length (executionOrder s)"
    and ord: "\<And>k. k < length (executionOrder s) \<Longrightarrow> executionOrder s ! k \<in> tid ` set tasks"
    and bit: "\<And>k t. k < length (executionOrder s) \<Longrightarrow> t \<in> set tasks \<Longrightarrow>
                scheduling s (tid t) ! k = (executionOrder s ! k = tid t)"
    unfolding tableInv_def by simp_all
  have inj: "inj_on tid (set tasks)"
    using assms(1) by (simp add: distinct_map)
  have one: "\<exists>!t. t \<in> set tasks \<and> scheduling s (tid t) ! k" if k: "k < length (executionOrder s)" for k
  proof -
    from ord[OF k] obtain t where t: "t \<in> set tasks" "executionOrder s ! k = tid t" by auto
    show ?thesis
    proof (rule ex1I[of _ t])
      show "t \<in> set tasks \<and> scheduling s (tid t) ! k" using t bit[OF k t(1)] by simp
    next
      fix u assume u: "u \<in> set tasks \<and> scheduling s (tid u) ! k"
      then have "executionOrder s ! k = tid u" using bit[OF k, of u] by simp
      with t have "tid u = tid t" by simp
      with inj u t show "u = t" by (auto dest: inj_onD)
    qed
  qed
  show ?thesis
    using run cur rows one bit by (intro exI[of _ s]) (simp add: r)
qed

lemma fiveSystem_run:
  "map_option (\<lambda>r. (getOrder r, map (getMapping r) [1, 2, 3, 4, 5])) (getRMScheduling fiveSystem) =
   Some ([1, 2, 3, 4, 5, 1, 5],
         [[True, False, False, False, False, True, False],
          [False, True, False, False, False, False, False],
          [False, False, True, False, False, False, False],
          [False, False, False, True, False, False, False],
          [False, False, False, False, True, False, True]])"
  by code_simp

text \<open>The theorem for claim C10 at the five-task system, which takes seven cells.\<close>

theorem getRMScheduling_table_witness:
  "distinct (map tid fiveSystem) \<and>
   (\<exists>r s. getRMScheduling fiveSystem = Some r \<and>
      rmWhile fiveSystem (rmInit fiveSystem) = Some s \<and>
      getOrder r = [1, 2, 3, 4, 5, 1, 5] \<and>
      getMapping r 5 = [False, False, False, False, True, False, True] \<and>
      currentCell s = 7 \<and>
      (\<forall>t\<in>set fiveSystem. int (length (getMapping r (tid t))) = 7) \<and>
      (\<forall>k<7. (\<exists>!t. t \<in> set fiveSystem \<and> getMapping r (tid t) ! k) \<and>
              (\<forall>t\<in>set fiveSystem. getMapping r (tid t) ! k = (getOrder r ! k = tid t))))"
proof -
  have d: "distinct (map tid fiveSystem)" by (simp add: fiveSystem_def)
  from fiveSystem_run obtain r where
    r: "getRMScheduling fiveSystem = Some r" and
    o: "getOrder r = [1, 2, 3, 4, 5, 1, 5]" and
    m: "getMapping r 5 = [False, False, False, False, True, False, True]"
    by auto
  from getRMScheduling_table[OF d r] obtain s where
    s: "rmWhile fiveSystem (rmInit fiveSystem) = Some s" and
    c: "int (length (getOrder r)) = currentCell s" and
    rows: "\<forall>t\<in>set fiveSystem. int (length (getMapping r (tid t))) = currentCell s" and
    cells: "\<forall>k<length (getOrder r).
                 (\<exists>!t. t \<in> set fiveSystem \<and> getMapping r (tid t) ! k) \<and>
                 (\<forall>t\<in>set fiveSystem. getMapping r (tid t) ! k = (getOrder r ! k = tid t))"
    by blast
  have c7: "currentCell s = 7" using c o by simp
  have l7: "length (getOrder r) = 7" using o by simp
  have rows7: "\<forall>t\<in>set fiveSystem. int (length (getMapping r (tid t))) = 7"
    using rows by (simp only: c7)
  have cells7: "\<forall>k<7. (\<exists>!t. t \<in> set fiveSystem \<and> getMapping r (tid t) ! k) \<and>
              (\<forall>t\<in>set fiveSystem. getMapping r (tid t) ! k = (getOrder r ! k = tid t))"
    using cells by (simp only: l7)
  show ?thesis
    using d r s o m c7 rows7 cells7 by blast
qed

section \<open>The rate-monotonic simulation: counting the true bits\<close>

lemma trueBits_append: "trueBits (row @ [b]) = trueBits row + (if b then 1 else 0)"
  by (simp add: trueBits_def)

lemma trueBits_le_length: "trueBits row \<le> length row"
  by (simp add: trueBits_def)

lemma taskView_rmTask_self:
  "taskView (rmTask t s) (tid t) = taskStep t (currentCell s) (runs t s) (taskView s (tid t))"
  by (auto simp: taskView_def taskStep_def rmTask_def rmSelect_def rmRelease_def runs_def Let_def
      trueBits_append)

lemma taskView_rmTask_other:
  "i \<noteq> tid t \<Longrightarrow> taskView (rmTask t s) i = taskView s i"
  by (auto simp: taskView_def rmTask_def rmSelect_def rmRelease_def Let_def)

lemma taskView_fold_other:
  "i \<notin> tid ` set ts \<Longrightarrow> taskView (fold rmTask ts s) i = taskView s i"
  by (induction ts arbitrary: s) (simp_all add: taskView_rmTask_other)

lemma taskView_fold:
  assumes "distinct (map tid tasks)" and "t \<in> set tasks"
  shows "\<exists>b. taskView (fold rmTask tasks s) (tid t) = taskStep t (currentCell s) b (taskView s (tid t))"
proof -
  from assms(2) obtain xs ys where split: "tasks = xs @ t # ys" by (auto dest: split_list)
  with assms(1) have nx: "tid t \<notin> tid ` set xs" and ny: "tid t \<notin> tid ` set ys" by auto
  define s1 where "s1 = fold rmTask xs s"
  have "taskView (fold rmTask tasks s) (tid t) = taskView (rmTask t s1) (tid t)"
    by (simp add: split s1_def taskView_fold_other[OF ny])
  also have "\<dots> = taskStep t (currentCell s1) (runs t s1) (taskView s1 (tid t))"
    by (rule taskView_rmTask_self)
  also have "currentCell s1 = currentCell s" by (simp add: s1_def fold_rmTask_currentCell)
  also have "taskView s1 (tid t) = taskView s (tid t)"
    by (simp add: s1_def taskView_fold_other[OF nx])
  finally show ?thesis by blast
qed

lemma taskView_rmCell:
  assumes "distinct (map tid tasks)" and "t \<in> set tasks"
  shows "\<exists>b. taskView (rmCell tasks s) (tid t) = taskStep t (currentCell s) b (taskView s (tid t))"
proof -
  from taskView_fold[OF assms, of "s\<lparr> selectedTask := None \<rparr>"] obtain b where
    "taskView (fold rmTask tasks (s\<lparr> selectedTask := None \<rparr>)) (tid t) =
       taskStep t (currentCell (s\<lparr> selectedTask := None \<rparr>)) b
         (taskView (s\<lparr> selectedTask := None \<rparr>) (tid t))" by blast
  then have "taskView (rmCell tasks s) (tid t) = taskStep t (currentCell s) b (taskView s (tid t))"
    by (simp add: rmCell_def Let_def taskView_def)
  then show ?thesis by blast
qed

lemma rmCell_currentCell: "currentCell (rmCell tasks s) = currentCell s + 1"
  by (simp add: rmCell_def Let_def fold_rmTask_currentCell)

lemma released_step_same:
  "released t c ns r \<Longrightarrow> c \<noteq> ns \<Longrightarrow> released t (c + 1) ns r"
  by (auto simp: released_def)

lemma released_step_next:
  "released t c ns r \<Longrightarrow> c = ns \<Longrightarrow> 0 < period t \<Longrightarrow>
   released t (c + 1) (ns + period t) (r + 1)"
  by (auto simp: released_def algebra_simps)

lemma boundInv_step:
  assumes T: "0 < period t" and inv: "boundInv t c v"
  shows "boundInv t (c + 1) (taskStep t c b v)"
proof -
  obtain ns ec tc p where v: "v = (ns, ec, tc, p)" by (cases v) auto
  define m where "m = max 1 (executionTime t)"
  have m1: "1 \<le> m" and mC: "executionTime t \<le> m" by (simp_all add: m_def)
  from inv obtain r where
    rel: "released t c ns r" and e0: "0 \<le> ec" and etc: "ec \<le> int tc" and em: "ec \<le> m" and
    pe: "p \<Longrightarrow> ec < m" and np: "\<not> p \<Longrightarrow> m \<le> int tc" and
    up: "int tc \<le> m * (r - 1) + ec"
    unfolding boundInv_def v m_def by auto
  define ns1 where "ns1 = (if c = ns then ns + period t else ns)"
  define r1 where "r1 = (if c = ns then r + 1 else r)"
  define ec1 where "ec1 = (if c = ns then 0 else ec)"
  define p1 where "p1 = (c = ns \<or> p)"
  have rel1: "released t (c + 1) ns1 r1"
    using rel T by (auto simp: ns1_def r1_def released_step_same released_step_next)
  have e1: "0 \<le> ec1" "ec1 \<le> int tc" "ec1 \<le> m" using e0 etc em m1 by (auto simp: ec1_def)
  have pe1: "p1 \<Longrightarrow> ec1 < m" using pe m1 by (auto simp: ec1_def p1_def)
  have np1: "\<not> p1 \<Longrightarrow> m \<le> int tc" using np by (auto simp: p1_def)
  have up1: "int tc \<le> m * (r1 - 1) + ec1"
  proof (cases "c = ns")
    case True
    have "m * (r - 1) + ec \<le> m * (r - 1) + m" using em by simp
    also have "\<dots> = m * r" by (simp add: algebra_simps)
    finally show ?thesis using up True by (simp add: r1_def ec1_def)
  next
    case False
    then show ?thesis using up by (simp add: r1_def ec1_def)
  qed
  show ?thesis
  proof (cases "b \<and> p1")
    case True
    then have st: "taskStep t c b v = (ns1, ec1 + 1, tc + 1, \<not> (ec1 + 1 \<ge> executionTime t))"
      by (simp add: taskStep_def v ns1_def ec1_def p1_def Let_def)
    have lt: "ec1 < m" using pe1 True by simp
    have a: "executionTime t \<le> ec1 + 1 \<Longrightarrow> m \<le> int (tc + 1)"
      using e1 lt by (auto simp: m_def)
    have b': "\<not> executionTime t \<le> ec1 + 1 \<Longrightarrow> ec1 + 1 < m"
      using mC by simp
    show ?thesis
      unfolding st boundInv_def m_def[symmetric]
      using rel1 e1 lt a b' up1 by (auto intro!: exI[of _ r1])
  next
    case False
    then have st: "taskStep t c b v = (ns1, ec1, tc, p1)"
      by (auto simp: taskStep_def v ns1_def ec1_def p1_def Let_def)
    show ?thesis
      unfolding st boundInv_def m_def[symmetric]
      using rel1 e1 pe1 np1 up1 by (auto intro!: exI[of _ r1])
  qed
qed

lemma exactInv_step:
  assumes T: "0 < period t" and inv: "exactInv t c v"
    and no: "\<not> (c = fst v \<and> snd (snd (snd v)))"
  shows "exactInv t (c + 1) (taskStep t c b v)"
proof -
  obtain ns ec tc p where v: "v = (ns, ec, tc, p)" by (cases v) auto
  define m where "m = max 1 (executionTime t)"
  have m1: "1 \<le> m" and mC: "executionTime t \<le> m" by (simp_all add: m_def)
  from inv obtain r where
    rel: "released t c ns r" and
    pe: "p \<Longrightarrow> int tc = m * (r - 1) + ec \<and> 0 \<le> ec \<and> ec < m" and
    np: "\<not> p \<Longrightarrow> int tc = m * r"
    unfolding exactInv_def v m_def by auto
  have nov: "c = ns \<Longrightarrow> \<not> p" using no by (simp add: v)
  define ns1 where "ns1 = (if c = ns then ns + period t else ns)"
  define r1 where "r1 = (if c = ns then r + 1 else r)"
  define ec1 where "ec1 = (if c = ns then 0 else ec)"
  define p1 where "p1 = (c = ns \<or> p)"
  have rel1: "released t (c + 1) ns1 r1"
    using rel T by (auto simp: ns1_def r1_def released_step_same released_step_next)
  have pe1: "p1 \<Longrightarrow> int tc = m * (r1 - 1) + ec1 \<and> 0 \<le> ec1 \<and> ec1 < m"
    using pe np nov m1 by (auto simp: p1_def r1_def ec1_def)
  have np1: "\<not> p1 \<Longrightarrow> int tc = m * r1" using np by (auto simp: p1_def r1_def)
  show ?thesis
  proof (cases "b \<and> p1")
    case True
    then have st: "taskStep t c b v = (ns1, ec1 + 1, tc + 1, \<not> (ec1 + 1 \<ge> executionTime t))"
      by (simp add: taskStep_def v ns1_def ec1_def p1_def Let_def)
    from pe1 True have tc: "int tc = m * (r1 - 1) + ec1" and e0: "0 \<le> ec1" and lt: "ec1 < m"
      by simp_all
    have a: "executionTime t \<le> ec1 + 1 \<Longrightarrow> int (tc + 1) = m * r1"
    proof -
      assume "executionTime t \<le> ec1 + 1"
      then have "m \<le> ec1 + 1" using e0 by (simp add: m_def)
      with lt have "ec1 + 1 = m" by simp
      then have "int (tc + 1) = m * (r1 - 1) + m" using tc by simp
      then show ?thesis by (simp add: algebra_simps)
    qed
    have b': "\<not> executionTime t \<le> ec1 + 1 \<Longrightarrow>
               int (tc + 1) = m * (r1 - 1) + (ec1 + 1) \<and> 0 \<le> ec1 + 1 \<and> ec1 + 1 < m"
      using tc e0 mC by simp
    show ?thesis
      unfolding st exactInv_def m_def[symmetric]
      using rel1 a b' by (auto intro!: exI[of _ r1])
  next
    case False
    then have st: "taskStep t c b v = (ns1, ec1, tc, p1)"
      by (auto simp: taskStep_def v ns1_def ec1_def p1_def Let_def)
    show ?thesis
      unfolding st exactInv_def m_def[symmetric]
      using rel1 pe1 np1 by (auto intro!: exI[of _ r1])
  qed
qed

lemma rmWhile_invariant_noOverrun:
  "rmWhile tasks s = Some s' \<Longrightarrow> I s \<Longrightarrow> rmNoOverrun tasks s = Some True \<Longrightarrow>
   (\<forall>x. I x \<and> unattendendTasks x \<noteq> [] \<and> \<not> overrun tasks x \<longrightarrow> I (rmCell tasks x)) \<Longrightarrow>
   I s'"
proof (induction tasks s s' rule: rmWhile.raw_induct[rotated 1, consumes 1])
  case (1 loop tasks s s')
  show ?case
  proof (cases "unattendendTasks s = []")
    case True
    with "1.hyps" have "s' = s" by simp
    with "1.prems" show ?thesis by simp
  next
    case False
    with "1.hyps" have run: "loop tasks (rmCell tasks s) = Some s'" by simp
    from "1.prems"(2) False have
      no: "\<not> overrun tasks s" and nxt: "rmNoOverrun tasks (rmCell tasks s) = Some True"
      by (subst (asm) rmNoOverrun.simps, simp split: if_splits)+
    have "I (rmCell tasks s)" using "1.prems"(1,3) False no by blast
    from "1.IH"[OF run this nxt "1.prems"(3)] show ?thesis .
  qed
qed

lemma released_ceil:
  assumes "released t c ns r" and T: "0 < period t" and c: "1 \<le> c"
  shows "ceil_quot c (period t) = r"
proof -
  have le: "c \<le> r * period t" and lt: "(r - 1) * period t < c"
    using assms by (auto simp: released_def)
  have Tr: "0 < rat_of_int (period t)" using T by simp
  have "rat_of_int c \<le> rat_of_int (r * period t)" using le by (simp only: of_int_le_iff)
  then have a: "rat_of_int c / rat_of_int (period t) \<le> rat_of_int r"
    using Tr by (simp add: pos_divide_le_eq)
  have "rat_of_int ((r - 1) * period t) < rat_of_int c" using lt by (simp only: of_int_less_iff)
  then have b: "rat_of_int r - 1 < rat_of_int c / rat_of_int (period t)"
    using Tr by (simp add: pos_less_divide_eq)
  show ?thesis unfolding ceil_quot_def using a b by (intro ceiling_unique) simp_all
qed

lemma taskView_rmInit:
  assumes "distinct (map tid tasks)" and "t \<in> set tasks"
  shows "taskView (rmInit tasks) (tid t) = (period t, 0, 0, True)"
  using assms
  by (simp add: taskView_def rmInit_def rmInit_fold_fields rmInit_fold_scheduling
      rmInit_fold_executionCount rmInit_fold_nextStart trueBits_def)

lemma rmInit_currentCell: "currentCell (rmInit tasks) = 0"
  by (simp add: rmInit_def rmInit_fold_fields)

lemma boundInv_init: "0 < period t \<Longrightarrow> boundInv t 0 (period t, 0, 0, True)"
  by (auto simp: boundInv_def released_def intro!: exI[of _ 1])

lemma exactInv_init: "0 < period t \<Longrightarrow> exactInv t 0 (period t, 0, 0, True)"
  by (auto simp: exactInv_def released_def intro!: exI[of _ 1])

lemma not_overrun_view:
  "\<not> overrun tasks s \<Longrightarrow> t \<in> set tasks \<Longrightarrow>
   \<not> (currentCell s = fst (taskView s (tid t)) \<and> snd (snd (snd (taskView s (tid t)))))"
  by (auto simp: overrun_def taskView_def list_ex_iff)

lemma countInv_rmCell:
  assumes d: "distinct (map tid tasks)" and T: "list_all (\<lambda>t. 0 < period t) tasks"
    and inv: "countInv tasks s" and pend: "unattendendTasks s \<noteq> []"
  shows "countInv tasks (rmCell tasks s)"
proof -
  have tab: "tableInv tasks (rmCell tasks s)"
    using inv d pend by (auto simp: countInv_def intro: tableInv_rmCell)
  have "boundInv t (currentCell (rmCell tasks s)) (taskView (rmCell tasks s) (tid t))"
    if t: "t \<in> set tasks" for t
  proof -
    from taskView_rmCell[OF d t, of s] obtain b where
      b: "taskView (rmCell tasks s) (tid t) = taskStep t (currentCell s) b (taskView s (tid t))"
      by blast
    have "boundInv t (currentCell s) (taskView s (tid t))"
      using inv t by (simp add: countInv_def list_all_iff)
    moreover have "0 < period t" using T t by (simp add: list_all_iff)
    ultimately show ?thesis
      unfolding b rmCell_currentCell by (intro boundInv_step)
  qed
  with tab show ?thesis by (simp add: countInv_def list_all_iff)
qed

lemma exactCountInv_rmCell:
  assumes d: "distinct (map tid tasks)" and T: "list_all (\<lambda>t. 0 < period t) tasks"
    and inv: "exactCountInv tasks s" and no: "\<not> overrun tasks s"
  shows "exactCountInv tasks (rmCell tasks s)"
proof -
  have "exactInv t (currentCell (rmCell tasks s)) (taskView (rmCell tasks s) (tid t))"
    if t: "t \<in> set tasks" for t
  proof -
    from taskView_rmCell[OF d t, of s] obtain b where
      b: "taskView (rmCell tasks s) (tid t) = taskStep t (currentCell s) b (taskView s (tid t))"
      by blast
    have "exactInv t (currentCell s) (taskView s (tid t))"
      using inv t by (simp add: exactCountInv_def list_all_iff)
    moreover have "0 < period t" using T t by (simp add: list_all_iff)
    ultimately show ?thesis
      unfolding b rmCell_currentCell
      using not_overrun_view[OF no t] by (intro exactInv_step)
  qed
  then show ?thesis by (simp add: exactCountInv_def list_all_iff)
qed

lemma countInv_rmInit:
  assumes "distinct (map tid tasks)" and "list_all (\<lambda>t. 0 < period t) tasks"
  shows "countInv tasks (rmInit tasks)" and "exactCountInv tasks (rmInit tasks)"
  using assms
  by (simp_all add: countInv_def exactCountInv_def tableInv_rmInit list_all_iff
      taskView_rmInit rmInit_currentCell boundInv_init exactInv_init)

text \<open>
  Claim C3 (amended).  The simulation does not cover a hyperperiod: it stops at the first
  cell boundary at which no task is pending.  For every run that returns, on tasks with
  pairwise different ids and positive periods, with \<open>L\<close> the number of simulated cells:
  the number of true bits of each task is at least \<open>max 1 executionTime\<close> and at most
  \<open>max 1 executionTime * ceil (L / period)\<close>, and it is equal to the latter, the
  execution time for each release within the \<open>L\<close> cells, when no task is released while
  it is still pending.
\<close>

theorem getRMScheduling_true_bits:
  assumes d: "distinct (map tid tasks)"
    and T: "list_all (\<lambda>t. 0 < period t) tasks"
    and res: "getRMScheduling tasks = Some r"
    and t: "t \<in> set tasks"
  shows "max 1 (executionTime t) \<le> int (trueBits (getMapping r (tid t))) \<and>
         int (trueBits (getMapping r (tid t))) \<le>
           max 1 (executionTime t) * ceil_quot (int (length (getOrder r))) (period t) \<and>
         (rmNoOverrun tasks (rmInit tasks) = Some True \<longrightarrow>
            int (trueBits (getMapping r (tid t))) =
              max 1 (executionTime t) * ceil_quot (int (length (getOrder r))) (period t))"
proof -
  define m where "m = max 1 (executionTime t)"
  have m1: "1 \<le> m" by (simp add: m_def)
  have Tt: "0 < period t" using T t by (simp add: list_all_iff)
  from res obtain s where
    run: "rmWhile tasks (rmInit tasks) = Some s" and
    r: "r = \<lparr> isScheludable = True, getMapping = scheduling s, getOrder = executionOrder s \<rparr>"
    by (auto simp: getRMScheduling_def split: option.splits)
  have fin: "countInv tasks s \<and> unattendendTasks s = []"
    using run countInv_rmInit(1)[OF d T]
  proof (rule rmWhile_invariant)
    fix x assume "countInv tasks x" "unattendendTasks x \<noteq> []"
    then show "countInv tasks (rmCell tasks x)" using d T by (intro countInv_rmCell)
  qed
  define tc where "tc = trueBits (scheduling s (tid t))"
  have cur: "currentCell s = int (length (executionOrder s))"
    and row: "length (scheduling s (tid t)) = length (executionOrder s)"
    using fin t by (simp_all add: countInv_def tableInv_def)
  have view: "taskView s (tid t) = (nextStart s (tid t), executionCount s (tid t), tc, False)"
    using fin by (simp add: taskView_def tc_def)
  have "boundInv t (currentCell s) (taskView s (tid t))"
    using fin t by (simp add: countInv_def list_all_iff)
  then obtain rr where
    rel: "released t (currentCell s) (nextStart s (tid t)) rr" and
    em: "executionCount s (tid t) \<le> m" and
    lo: "m \<le> int tc" and
    up: "int tc \<le> m * (rr - 1) + executionCount s (tid t)"
    unfolding view boundInv_def m_def by auto
  have "tc \<le> length (executionOrder s)"
    using trueBits_le_length[of "scheduling s (tid t)"] row by (simp add: tc_def)
  with lo m1 have c1: "1 \<le> currentCell s" by (simp add: cur)
  have ceil: "ceil_quot (currentCell s) (period t) = rr"
    by (rule released_ceil[OF rel Tt c1])
  have "m * (rr - 1) + executionCount s (tid t) \<le> m * (rr - 1) + m" using em by simp
  also have "\<dots> = m * rr" by (simp add: algebra_simps)
  finally have hi: "int tc \<le> m * rr" using up by simp
  have ex: "int tc = m * rr" if no: "rmNoOverrun tasks (rmInit tasks) = Some True"
  proof -
    have "exactCountInv tasks s"
      using run countInv_rmInit(2)[OF d T] no
    proof (rule rmWhile_invariant_noOverrun)
      show "\<forall>x. exactCountInv tasks x \<and> unattendendTasks x \<noteq> [] \<and> \<not> overrun tasks x \<longrightarrow>
                exactCountInv tasks (rmCell tasks x)"
        using d T by (auto intro: exactCountInv_rmCell)
    qed
    then have "exactInv t (currentCell s) (taskView s (tid t))"
      using t by (simp add: exactCountInv_def list_all_iff)
    then obtain r2 where
      rel2: "released t (currentCell s) (nextStart s (tid t)) r2" and e2: "int tc = m * r2"
      unfolding view exactInv_def m_def by auto
    from released_ceil[OF rel2 Tt c1] ceil have "r2 = rr" by simp
    with e2 show ?thesis by simp
  qed
  show ?thesis
    using lo hi ex unfolding m_def[symmetric]
    by (simp add: r tc_def[symmetric] cur[symmetric] ceil)
qed

text \<open>
  Claim C3 as stated fails: for \<open>(1,2,2),(1,3,3)\<close> the simulation returns after two
  cells; the first task has one true bit, while its execution time multiplied by
  hyperperiod / period is \<open>1 * (6 / 2) = 3\<close>.
\<close>

theorem getRMScheduling_not_hyperperiod:
  "parseSystemTasks 2 ''(1,2,2),(1,3,3)'' = Inr twoSystem \<and>
   getHyperperiod twoSystem = 6 \<and>
   map_option (\<lambda>r. (getOrder r, getMapping r 1)) (getRMScheduling twoSystem) =
     Some ([1, 2], [True, False]) \<and>
   trueBits [True, False] = 1 \<and>
   executionTime (twoSystem ! 0) * (getHyperperiod twoSystem div period (twoSystem ! 0)) = 3"
proof (intro conjI)
  show "parseSystemTasks 2 ''(1,2,2),(1,3,3)'' = Inr twoSystem"
    by (simp add: parse_eval twoSystem_def math_round_two_decimals)
  show "getHyperperiod twoSystem = 6" by code_simp
  show "map_option (\<lambda>r. (getOrder r, getMapping r 1)) (getRMScheduling twoSystem) =
     Some ([1, 2], [True, False])" by code_simp
  show "trueBits [True, False] = 1" by (simp add: trueBits_def)
  show "executionTime (twoSystem ! 0) * (getHyperperiod twoSystem div period (twoSystem ! 0)) = 3"
    by code_simp
qed

text \<open>
  The theorem for claim C3 at the first task of the five-task system: seven cells, no
  overrun, two releases, two true bits.
\<close>

theorem getRMScheduling_true_bits_witness:
  "distinct (map tid fiveSystem) \<and>
   list_all (\<lambda>t. 0 < period t) fiveSystem \<and>
   fiveSystem ! 0 \<in> set fiveSystem \<and>
   rmNoOverrun fiveSystem (rmInit fiveSystem) = Some True \<and>
   (\<exists>r. getRMScheduling fiveSystem = Some r \<and>
        getOrder r = [1, 2, 3, 4, 5, 1, 5] \<and>
        getMapping r (tid (fiveSystem ! 0)) = [True, False, False, False, False, True, False] \<and>
        max 1 (executionTime (fiveSystem ! 0)) \<le>
          int (trueBits (getMapping r (tid (fiveSystem ! 0)))) \<and>
        int (trueBits (getMapping r (tid (fiveSystem ! 0)))) =
          max 1 (executionTime (fiveSystem ! 0)) *
            ceil_quot (int (length (getOrder r))) (period (fiveSystem ! 0)))"
proof -
  have d: "distinct (map tid fiveSystem)" by (simp add: fiveSystem_def)
  have T: "list_all (\<lambda>t. 0 < period t) fiveSystem" by (simp add: fiveSystem_def)
  have t: "fiveSystem ! 0 \<in> set fiveSystem" by (simp add: fiveSystem_def)
  have i: "tid (fiveSystem ! 0) = 1" by (simp add: fiveSystem_def)
  have no: "rmNoOverrun fiveSystem (rmInit fiveSystem) = Some True" by code_simp
  from fiveSystem_run obtain r where
    r: "getRMScheduling fiveSystem = Some r" and
    o: "getOrder r = [1, 2, 3, 4, 5, 1, 5]" and
    m: "getMapping r 1 = [True, False, False, False, False, True, False]"
    by auto
  from getRMScheduling_true_bits[OF d T r t] no have
    "max 1 (executionTime (fiveSystem ! 0)) \<le>
          int (trueBits (getMapping r (tid (fiveSystem ! 0))))" and
    "int (trueBits (getMapping r (tid (fiveSystem ! 0)))) =
          max 1 (executionTime (fiveSystem ! 0)) *
            ceil_quot (int (length (getOrder r))) (period (fiveSystem ! 0))"
    by blast+
  then show ?thesis using d T t no r o m i by auto
qed


end
